theory Spec2Isabelle
  imports Complex_Main "HOL-Library.AList"
begin

section \<open>JavaScript values\<close>

text \<open>
  The form validator (validator.js v0.11.5, the \<open>Validator\<close> class of the bundle) reads
  attribute data through jQuery, whose \<open>.data(key)\<close> yields strings, numbers, booleans,
  \<open>null\<close> or \<open>undefined\<close>. A string is a list of code units below 256. \<open>Num n\<close> is the
  Number whose value is the integer \<open>n\<close>, which is what \<open>.data\<close> reads from the decimal
  numeral of \<open>n\<close>; arrays and objects are not values of the model.
\<close>

datatype jsval = Undefined | Null | Bool bool | Num int | Str string

fun truthy :: "jsval \<Rightarrow> bool" where
  "truthy Undefined = False"
| "truthy Null = False"
| "truthy (Bool b) = b"
| "truthy (Num n) = (n \<noteq> 0)"
| "truthy (Str s) = (s \<noteq> [])"

text \<open>The JavaScript \<open>a || b\<close>.\<close>

definition js_or :: "jsval \<Rightarrow> jsval \<Rightarrow> jsval" where
  "js_or a b = (if truthy a then a else b)"

text \<open>A call either returns a value or throws.\<close>

datatype 'a completion = Threw | Ret 'a

text \<open>
  The blanks of \<open>$.trim\<close> (the white space of regular expressions, the byte order
  mark and the no-break space) and of the string-to-number coercion
  (\<open>StrWhiteSpaceChar\<close>) are the same characters; those below 256 are the tab, the line
  feed, the vertical tab, the form feed, the carriage return, the space and the no-break
  space.
\<close>

definition is_space :: "char \<Rightarrow> bool" where
  "is_space c = (c \<in> set [CHR '' '', CHR 0x09, CHR 0x0A, CHR 0x0B, CHR 0x0C, CHR 0x0D, CHR 0xA0])"

text \<open>\<open>$.trim\<close>\<close>

definition trim :: "string \<Rightarrow> string" where
  "trim s = rev (dropWhile is_space (rev (dropWhile is_space s)))"

text \<open>
  The result of a coercion to Number: \<open>NaN\<close>, an infinity, or a finite value. The
  finite values are doubles; \<open>double_of\<close> is the Number value for a rational, the nearest
  double with ties to the even mantissa, and an infinity from \<open>2 ^ 1024\<close> on. The sign of
  zero is not kept: no comparison tells \<open>-0\<close> from \<open>0\<close>.
\<close>

datatype number = NaN | PosInf | NegInf | Fin rat

definition pow2 :: "int \<Rightarrow> rat" where
  "pow2 k = (if 0 \<le> k then 2 ^ nat k else 1 / 2 ^ nat (- k))"

definition pow10 :: "int \<Rightarrow> rat" where
  "pow10 k = (if 0 \<le> k then 10 ^ nat k else 1 / 10 ^ nat (- k))"

function ilog2 :: "int \<Rightarrow> int" where
  "ilog2 n = (if n < 2 then 0 else 1 + ilog2 (n div 2))"
  by pat_completeness auto

termination
  by (relation "measure nat") auto

text \<open>The largest \<open>e\<close> with \<open>2 ^ e \<le> x\<close>, for a positive \<open>x\<close>.\<close>

definition exponent_of :: "rat \<Rightarrow> int" where
  "exponent_of x =
     (case quotient_of x of
        (p, q) \<Rightarrow>
          (let e = ilog2 p - ilog2 q
           in if pow2 e \<le> x then e else e - 1))"

definition round_half_even :: "rat \<Rightarrow> int" where
  "round_half_even x =
     (let f = \<lfloor>x\<rfloor>; r = x - of_int f
      in if r < 1 / 2 then f else if 1 / 2 < r then f + 1 else if even f then f else f + 1)"

definition double_of :: "rat \<Rightarrow> number" where
  "double_of x =
     (if x = 0 then Fin 0
      else
        (let a = \<bar>x\<bar>;
             e = max (exponent_of a) (- 1022);
             q = pow2 (e - 52);
             y = of_int (round_half_even (a / q)) * q
         in if pow2 1024 \<le> y then (if 0 < x then PosInf else NegInf)
            else Fin (if 0 < x then y else - y)))"

definition negate :: "number \<Rightarrow> number" where
  "negate v = (case v of NaN \<Rightarrow> NaN | PosInf \<Rightarrow> NegInf | NegInf \<Rightarrow> PosInf | Fin r \<Rightarrow> Fin (- r))"

text \<open>The value of a digit in base \<open>b\<close>.\<close>

definition digit_in :: "nat \<Rightarrow> char \<Rightarrow> nat option" where
  "digit_in b c =
     (let n = (of_char c :: nat);
          d = (if 48 \<le> n \<and> n \<le> 57 then Some (n - 48)
               else if 97 \<le> n \<and> n \<le> 102 then Some (n - 87)
               else if 65 \<le> n \<and> n \<le> 70 then Some (n - 55)
               else None)
      in case d of None \<Rightarrow> None | Some v \<Rightarrow> if v < b then Some v else None)"

text \<open>The number that a string of digits in base \<open>b\<close> denotes.\<close>

fun int_of_digits :: "nat \<Rightarrow> int \<Rightarrow> string \<Rightarrow> int option" where
  "int_of_digits b acc [] = Some acc"
| "int_of_digits b acc (c # cs) =
     (case digit_in b c of None \<Rightarrow> None | Some d \<Rightarrow> int_of_digits b (int b * acc + int d) cs)"

text \<open>One digit or more.\<close>

definition digit_string :: "nat \<Rightarrow> string \<Rightarrow> int option" where
  "digit_string b s = (if s = [] then None else int_of_digits b 0 s)"

definition is_digit :: "char \<Rightarrow> bool" where
  "is_digit c = (digit_in 10 c \<noteq> None)"

text \<open>\<open>ExponentPart\<close>, or nothing: the power of ten.\<close>

definition exponent_part :: "string \<Rightarrow> int option" where
  "exponent_part s =
     (case s of
        [] \<Rightarrow> Some 0
      | c # cs \<Rightarrow>
          if c = CHR ''e'' \<or> c = CHR ''E'' then
            (case cs of
               [] \<Rightarrow> None
             | d # ds \<Rightarrow>
                 if d = CHR ''-'' then map_option uminus (digit_string 10 ds)
                 else if d = CHR ''+'' then digit_string 10 ds
                 else digit_string 10 cs)
          else None)"

text \<open>\<open>StrUnsignedDecimalLiteral\<close>: \<open>Infinity\<close>, or digits with an optional fraction and an
  optional exponent, with a digit before or after the point.\<close>

definition unsigned_decimal :: "string \<Rightarrow> number" where
  "unsigned_decimal s =
     (if s = ''Infinity'' then PosInf
      else
        (let ip = takeWhile is_digit s;
             r1 = dropWhile is_digit s;
             dot = (case r1 of [] \<Rightarrow> False | c # _ \<Rightarrow> c = CHR ''.'');
             fp = (if dot then takeWhile is_digit (tl r1) else []);
             r2 = (if dot then dropWhile is_digit (tl r1) else r1)
         in if ip = [] \<and> fp = [] then NaN
            else
              (case (int_of_digits 10 0 ip, int_of_digits 10 0 fp, exponent_part r2) of
                 (Some i, Some f, Some k) \<Rightarrow>
                   double_of ((of_int i + of_int f / 10 ^ length fp) * pow10 k)
               | _ \<Rightarrow> NaN)))"

text \<open>\<open>HexIntegerLiteral\<close>, \<open>OctalIntegerLiteral\<close> and \<open>BinaryIntegerLiteral\<close> without their
  prefix.\<close>

definition radix_literal :: "nat \<Rightarrow> string \<Rightarrow> number" where
  "radix_literal b s = (case digit_string b s of None \<Rightarrow> NaN | Some n \<Rightarrow> double_of (of_int n))"

text \<open>
  The string-to-number coercion of the \<open><\<close> operator (\<open>StringToNumber\<close>): the blanks around
  the literal are dropped; the empty string is 0; a decimal literal may have a sign, a
  literal with a radix prefix may not; anything else is \<open>NaN\<close>.
\<close>

definition str_to_number :: "string \<Rightarrow> number" where
  "str_to_number s =
     (case trim s of
        [] \<Rightarrow> Fin 0
      | c # cs \<Rightarrow>
          if c = CHR ''-'' then negate (unsigned_decimal cs)
          else if c = CHR ''+'' then unsigned_decimal cs
          else if c = CHR ''0'' \<and> cs \<noteq> [] \<and> (hd cs = CHR ''x'' \<or> hd cs = CHR ''X'') then radix_literal 16 (tl cs)
          else if c = CHR ''0'' \<and> cs \<noteq> [] \<and> (hd cs = CHR ''o'' \<or> hd cs = CHR ''O'') then radix_literal 8 (tl cs)
          else if c = CHR ''0'' \<and> cs \<noteq> [] \<and> (hd cs = CHR ''b'' \<or> hd cs = CHR ''B'') then radix_literal 2 (tl cs)
          else unsigned_decimal (c # cs))"

fun to_number :: "jsval \<Rightarrow> number" where
  "to_number Undefined = NaN"
| "to_number Null = Fin 0"
| "to_number (Bool b) = Fin (if b then 1 else 0)"
| "to_number (Num n) = Fin (of_int n)"
| "to_number (Str s) = str_to_number s"

text \<open>\<open>n < v\<close> for a length \<open>n\<close>: false when \<open>v\<close> coerces to \<open>NaN\<close>.\<close>

definition js_less :: "nat \<Rightarrow> jsval \<Rightarrow> bool" where
  "js_less n v =
     (case to_number v of NaN \<Rightarrow> False | PosInf \<Rightarrow> True | NegInf \<Rightarrow> False | Fin m \<Rightarrow> of_nat n < m)"

fun digits :: "nat \<Rightarrow> string" where
  "digits n = (if n < 10 then [char_of (48 + n)] else digits (n div 10) @ [char_of (48 + n mod 10)])"

text \<open>\<open>String(v)\<close> of an array element: \<open>Array.prototype.toString\<close> joins with commas and
  writes \<open>null\<close> and \<open>undefined\<close> as the empty string.\<close>

fun js_elem_string :: "jsval \<Rightarrow> string" where
  "js_elem_string Undefined = []"
| "js_elem_string Null = []"
| "js_elem_string (Bool b) = (if b then ''true'' else ''false'')"
| "js_elem_string (Num n) = (if n < 0 then CHR ''-'' # digits (nat (- n)) else digits (nat n))"
| "js_elem_string (Str s) = s"

fun js_join :: "jsval list \<Rightarrow> string" where
  "js_join [] = []"
| "js_join [v] = js_elem_string v"
| "js_join (v # w # vs) = js_elem_string v @ '','' @ js_join (w # vs)"

section \<open>The page\<close>

datatype itype = Checkbox | Radio | Hidden | Submit | Reset | Button | Text

text \<open>The constraint validation interface of a form control, as the browser computes it
  for the control's current value.\<close>

record validity =
  typeMismatch :: bool
  patternMismatch :: bool
  stepMismatch :: bool
  rangeOverflow :: bool
  rangeUnderflow :: bool
  valueMissing :: bool
  valid :: bool
  checkValidity :: bool
  validationMessage :: string

datatype tag = InputTag | SelectTag | TextareaTag | ButtonTag | OptionTag | OtherTag

text \<open>
  An element of the page. \<open>in_form\<close>: it is a descendant of the validated form. \<open>etype\<close>:
  its \<open>type\<close> attribute (\<open>Text\<close>: none of the other values). \<open>name\<close>: its \<open>name\<close>
  attribute, which the plugin splices into quoted attribute selectors: a name of the
  model holds no quote and no backslash. \<open>checked\<close>: the \<open>checked\<close>
  property of an \<open>input\<close>. \<open>selected\<close>: the \<open>selected\<close> property of an \<open>option\<close>. \<open>attrs\<close>:
  what \<open>$el.data(key)\<close> yields from its \<open>data-*\<close> attributes. \<open>api\<close>: its validity
  interface, \<open>None\<close> for an element without \<open>checkValidity\<close>. \<open>group\<close>: its closest
  \<open>.form-group\<close> ancestor.
\<close>

record element =
  in_form :: bool
  tag :: tag
  etype :: itype
  name :: "string option"
  required :: bool
  val :: string
  checked :: bool
  selected :: bool
  attrs :: "(string \<times> jsval) list"
  api :: "validity option"
  group :: "nat option"

text \<open>What the plugin keeps on an element with \<open>$el.data(key, value)\<close>:
  \<open>bs.validator.errors\<close>, \<open>bs.validator.deferred\<close>, \<open>bs.validator.timeout\<close>
  (\<open>None\<close>: \<open>undefined\<close>).\<close>

record pdata =
  errors :: "jsval list option"
  deferred :: "nat option"
  timeout :: "nat option"

text \<open>What an error block shows: the markup of the page, or the list the plugin rendered
  (\<open>True\<close>: items set with \<open>.html\<close>, \<open>False\<close>: with \<open>.text\<close>).\<close>

datatype content = Markup string | Rendered bool "jsval list"

record block =
  html :: content
  originalContent :: "content option"

text \<open>A \<open>.form-group\<close> of the form, with the \<open>.help-block.with-errors\<close> and
  \<open>.form-control-feedback\<close> elements below it.\<close>

record fgroup =
  has_error :: bool
  has_danger :: bool
  has_success :: bool
  has_feedback :: bool
  g_blocks :: "nat list"
  g_feedbacks :: "nat list"

datatype callback = ShowErrors "nat list" | RemoteCheck "nat list" nat

datatype dstatus = Pending | Resolved "jsval list" | Rejected

text \<open>The callbacks added with \<open>.done\<close>: the one of \<open>validateInput\<close>, with the variables
  it closes over (\<open>$el\<close>, \<open>deferErrors\<close>, \<open>prevErrors\<close>), and the one of \<open>onInput\<close>.\<close>

datatype continuation = Validated "nat list" bool "jsval list option" | Toggle

record deferred_obj =
  status :: dstatus
  callbacks :: "continuation list"

record request =
  r_els :: "nat list"
  r_deferred :: nat
  r_url :: jsval
  r_name :: jsval
  r_value :: jsval

text \<open>What the engine does that is not a change of state: the notifications it triggers
  on the form, the validators it calls and the requests it sends.\<close>

datatype event =
    EvValidate "nat option"
  | EvInvalid "nat option" "jsval list"
  | EvValid "nat option" "jsval list option"
  | EvValidated "nat option"
  | Ran string "nat list"
  | Get jsval jsval jsval

text \<open>
  The state: the elements of the page and the plugin's data on each of them (\<open>store\<close>,
  as long as \<open>elements\<close>), the groups, error blocks and feedback icons inside the form,
  the \<open>disabled\<close> class of each submit control (\<open>$btn\<close>), \<open>$inputs\<close>, the handlers bound
  on \<open>match\<close> targets (target, dependent field), the timers and requests that are
  pending, and the deferred objects made so far.
\<close>

record state =
  elements :: "element list"
  store :: "pdata list"
  groups :: "fgroup list"
  blocks :: "block list"
  feedbacks :: "string list list"
  btn :: "bool list"
  inputs :: "nat list"
  bindings :: "(nat \<times> nat) list"
  timers :: "(nat \<times> callback) list"
  next_timer :: nat
  deferreds :: "deferred_obj list"
  requests :: "request list"
  log :: "event list"


record options =
  delay :: nat
  o_html :: bool
  disable :: bool
  focus :: bool
  fb_success :: string
  fb_error :: string

text \<open>\<open>Validator.DEFAULTS\<close>\<close>

definition DEFAULTS :: options where
  "DEFAULTS = \<lparr>delay = 500, o_html = False, disable = True, focus = True,
     fb_success = ''glyphicon-ok'', fb_error = ''glyphicon-remove''\<rparr>"

text \<open>A validator: one of the three of \<open>Validator.VALIDATORS\<close>, or a predicate of
  \<open>options.custom\<close>, which reads the elements of the page and the field it is called
  on.\<close>

datatype validator = Native | Match | Minlength | Custom "element list \<Rightarrow> nat list \<Rightarrow> jsval completion"

text \<open>
  What the engine is built with: its options, \<open>this.validators\<close> in the order of
  \<open>$.each\<close>, jQuery's selector engine on the page (the elements a selector string picks,
  in document order), and the subscribers of \<open>validate.bs.validator\<close>: whether one of them
  prevents the default, given the state and the event's \<open>relatedTarget\<close>.
\<close>

record env =
  opts :: options
  validators :: "(string \<times> validator) list"
  selector :: "string \<Rightarrow> nat list"
  veto :: "state \<Rightarrow> nat option \<Rightarrow> bool"

definition VALIDATORS :: "(string \<times> validator) list" where
  "VALIDATORS = [(''native'', Native), (''match'', Match), (''minlength'', Minlength)]"

text \<open>
  An object is the list of its properties in the order of their creation. \<open>for ... in\<close>,
  and so \<open>$.each\<close>, visits the keys that are array indices first, in ascending order, and
  then the other keys in the order of their creation. An array index is the canonical
  numeral of a number below \<open>2 ^ 32 - 1\<close>.
\<close>

definition array_index :: "string \<Rightarrow> int option" where
  "array_index k =
     (case digit_string 10 k of
        None \<Rightarrow> None
      | Some n \<Rightarrow> if (k = ''0'' \<or> hd k \<noteq> CHR ''0'') \<and> n < 4294967295 then Some n else None)"

definition index_key :: "string \<times> 'a \<Rightarrow> int" where
  "index_key kv = (case array_index (fst kv) of None \<Rightarrow> 0 | Some n \<Rightarrow> n)"

definition for_in :: "(string \<times> 'a) list \<Rightarrow> (string \<times> 'a) list" where
  "for_in kvs =
     sort_key index_key (filter (\<lambda>kv. array_index (fst kv) \<noteq> None) kvs) @
     filter (\<lambda>kv. array_index (fst kv) = None) kvs"

text \<open>\<open>this.validators\<close> in the order of \<open>$.each\<close>. In
  \<open>$.extend({}, Validator.VALIDATORS, options.custom)\<close> a key of \<open>custom\<close> that is already
  there keeps its place and takes the new validator, and a new key is created after the
  others.\<close>

definition extend :: "(string \<times> validator) list \<Rightarrow> (string \<times> validator) list \<Rightarrow> (string \<times> validator) list" where
  "extend base custom = for_in (fold (\<lambda>(k, v). AList.update k v) custom base)"

section \<open>jQuery sets\<close>

text \<open>
  A jQuery set is the list of its elements' indices in document order. A getter reads the
  first element of the set (\<open>undefined\<close> on the empty set), a setter writes every element.
\<close>

definition update_at :: "nat list \<Rightarrow> ('a \<Rightarrow> 'a) \<Rightarrow> 'a list \<Rightarrow> 'a list" where
  "update_at is f xs = map (\<lambda>(i, x). if i \<in> set is then f x else x) (enumerate 0 xs)"

definition hd_opt :: "nat list \<Rightarrow> nat option" where
  "hd_opt els = (case els of [] \<Rightarrow> None | i # _ \<Rightarrow> Some i)"

definition first_el :: "state \<Rightarrow> nat list \<Rightarrow> element option" where
  "first_el s els =
     (case els of [] \<Rightarrow> None
      | i # _ \<Rightarrow> if i < length (elements s) then Some (elements s ! i) else None)"

definition first_data :: "state \<Rightarrow> nat list \<Rightarrow> pdata option" where
  "first_data s els =
     (case els of [] \<Rightarrow> None
      | i # _ \<Rightarrow> if i < length (store s) then Some (store s ! i) else None)"

definition jq_is :: "state \<Rightarrow> nat list \<Rightarrow> (element \<Rightarrow> bool) \<Rightarrow> bool" where
  "jq_is s els P = (\<exists>i \<in> set els. i < length (elements s) \<and> P (elements s ! i))"

definition jq_data :: "state \<Rightarrow> nat list \<Rightarrow> string \<Rightarrow> jsval" where
  "jq_data s els key =
     (case first_el s els of None \<Rightarrow> Undefined
      | Some e \<Rightarrow> (case map_of (attrs e) key of None \<Rightarrow> Undefined | Some v \<Rightarrow> v))"

definition jq_val :: "state \<Rightarrow> nat list \<Rightarrow> jsval" where
  "jq_val s els = (case first_el s els of None \<Rightarrow> Undefined | Some e \<Rightarrow> Str (val e))"

text \<open>\<open>$el.prop('checked')\<close>: only an \<open>input\<close> has the property.\<close>

definition jq_checked :: "state \<Rightarrow> nat list \<Rightarrow> jsval" where
  "jq_checked s els =
     (case first_el s els of
        None \<Rightarrow> Undefined
      | Some e \<Rightarrow> if tag e = InputTag then Bool (checked e) else Undefined)"

definition jq_required :: "state \<Rightarrow> nat list \<Rightarrow> bool" where
  "jq_required s els = (case first_el s els of None \<Rightarrow> False | Some e \<Rightarrow> required e)"

definition jq_name :: "state \<Rightarrow> nat list \<Rightarrow> jsval" where
  "jq_name s els =
     (case first_el s els of None \<Rightarrow> Undefined
      | Some e \<Rightarrow> (case name e of None \<Rightarrow> Undefined | Some n \<Rightarrow> Str n))"

definition jq_errors :: "state \<Rightarrow> nat list \<Rightarrow> jsval list option" where
  "jq_errors s els = (case first_data s els of None \<Rightarrow> None | Some e \<Rightarrow> errors e)"

definition jq_deferred :: "state \<Rightarrow> nat list \<Rightarrow> nat option" where
  "jq_deferred s els = (case first_data s els of None \<Rightarrow> None | Some e \<Rightarrow> deferred e)"

definition jq_timeout :: "state \<Rightarrow> nat list \<Rightarrow> nat option" where
  "jq_timeout s els = (case first_data s els of None \<Rightarrow> None | Some e \<Rightarrow> timeout e)"

text \<open>The name as it is spliced into a selector: \<open>'[name="' + $el.attr('name') + '"]'\<close>.\<close>

definition name_string :: "jsval \<Rightarrow> string" where
  "name_string v = (case v of Str n \<Rightarrow> n | _ \<Rightarrow> ''undefined'')"

text \<open>\<open>:checked\<close> matches the checkbox and radio inputs that are checked and the options
  that are selected.\<close>

definition is_checked :: "element \<Rightarrow> bool" where
  "is_checked e =
     ((tag e = InputTag \<and> (etype e = Checkbox \<or> etype e = Radio) \<and> checked e) \<or>
      (tag e = OptionTag \<and> selected e))"

text \<open>\<open>$('[name="n"]:checked')\<close>, on the whole page.\<close>

definition checked_named :: "state \<Rightarrow> string \<Rightarrow> nat list" where
  "checked_named s n =
     filter (\<lambda>i. name (elements s ! i) = Some n \<and> is_checked (elements s ! i)) [0..<length (elements s)]"

text \<open>\<open>this.$element.find('input[name="n"]')\<close>\<close>

definition find_inputs_named :: "state \<Rightarrow> string \<Rightarrow> nat list" where
  "find_inputs_named s n =
     filter (\<lambda>i. in_form (elements s ! i) \<and> tag (elements s ! i) = InputTag \<and> name (elements s ! i) = Some n)
       [0..<length (elements s)]"

text \<open>\<open>$el.closest('.form-group')\<close>, \<open>$group.find('.help-block.with-errors')\<close>,
  \<open>$group.find('.form-control-feedback')\<close>\<close>

definition closest :: "state \<Rightarrow> nat list \<Rightarrow> nat list" where
  "closest s els =
     filter (\<lambda>g. \<exists>i \<in> set els. i < length (elements s) \<and> group (elements s ! i) = Some g)
       [0..<length (groups s)]"

definition find_blocks :: "state \<Rightarrow> nat list \<Rightarrow> nat list" where
  "find_blocks s gs =
     filter (\<lambda>b. \<exists>g \<in> set gs. b \<in> set (g_blocks (groups s ! g))) [0..<length (blocks s)]"

definition find_feedbacks :: "state \<Rightarrow> nat list \<Rightarrow> nat list" where
  "find_feedbacks s gs =
     filter (\<lambda>f. \<exists>g \<in> set gs. f \<in> set (g_feedbacks (groups s ! g))) [0..<length (feedbacks s)]"

definition addClass :: "string \<Rightarrow> string list \<Rightarrow> string list" where
  "addClass c cs = (if c \<in> set cs then cs else cs @ [c])"

definition removeClass :: "string \<Rightarrow> string list \<Rightarrow> string list" where
  "removeClass c cs = removeAll c cs"

section \<open>The validator\<close>

definition getValue :: "state \<Rightarrow> nat list \<Rightarrow> jsval" where
  "getValue s els =
     (if jq_is s els (\<lambda>e. etype e = Checkbox) then jq_checked s els
      else if jq_is s els (\<lambda>e. etype e = Radio)
        then Bool (checked_named s (name_string (jq_name s els)) \<noteq> [])
      else jq_val s els)"

text \<open>\<open>Validator.VALIDATORS\<close>. A validator returns \<open>false\<close> or \<open>undefined\<close> for no error.
  \<open>native\<close> and \<open>minlength\<close> read \<open>$el[0]\<close> and \<open>$el.val().length\<close>, which throw on the
  empty set; \<open>$(target)\<close> is the empty set for a falsy target and \<open>.val()\<close> throws on a
  wrapped number or boolean.\<close>

definition native :: "state \<Rightarrow> nat list \<Rightarrow> jsval completion" where
  "native s els =
     (case first_el s els of
        None \<Rightarrow> Threw
      | Some el \<Rightarrow>
          (case api el of
             None \<Rightarrow> Ret Undefined
           | Some v \<Rightarrow>
               Ret (if \<not> checkValidity v \<and> \<not> valid v
                    then js_or (Str (validationMessage v)) (Str ''error!'')
                    else Bool False)))"

text \<open>\<open>$(target).val()\<close>\<close>

definition target_val :: "env \<Rightarrow> state \<Rightarrow> jsval \<Rightarrow> jsval completion" where
  "target_val env s target =
     (if \<not> truthy target then Ret Undefined
      else case target of Str t \<Rightarrow> Ret (jq_val s (selector env t)) | _ \<Rightarrow> Threw)"

definition match :: "env \<Rightarrow> state \<Rightarrow> nat list \<Rightarrow> jsval completion" where
  "match env s els =
     (let target = jq_data s els ''match'' in
      case target_val env s target of
        Threw \<Rightarrow> Threw
      | Ret tv \<Rightarrow> Ret (if jq_val s els \<noteq> tv then Str ''Does not match'' else Bool False))"

definition minlength :: "state \<Rightarrow> nat list \<Rightarrow> jsval completion" where
  "minlength s els =
     (let minlength = jq_data s els ''minlength'' in
      case first_el s els of
        None \<Rightarrow> Threw
      | Some el \<Rightarrow> Ret (if js_less (length (val el)) minlength then Str ''Not long enough'' else Bool False))"

fun call_validator :: "env \<Rightarrow> validator \<Rightarrow> state \<Rightarrow> nat list \<Rightarrow> jsval completion" where
  "call_validator env Native s els = native s els"
| "call_validator env Match s els = match env s els"
| "call_validator env Minlength s els = minlength s els"
| "call_validator env (Custom f) s els = f (elements s) els"

text \<open>The error message helpers of \<open>runValidators\<close>.\<close>

definition getValidatorSpecificError :: "state \<Rightarrow> nat list \<Rightarrow> string \<Rightarrow> jsval" where
  "getValidatorSpecificError s els key = jq_data s els (key @ ''-error'')"

definition getValidityStateError :: "state \<Rightarrow> nat list \<Rightarrow> jsval completion" where
  "getValidityStateError s els =
     (case first_el s els of
        None \<Rightarrow> Threw
      | Some el \<Rightarrow>
          (case api el of
             None \<Rightarrow> Threw
           | Some v \<Rightarrow>
               Ret (if typeMismatch v then jq_data s els ''type-error''
                    else if patternMismatch v then jq_data s els ''pattern-error''
                    else if stepMismatch v then jq_data s els ''step-error''
                    else if rangeOverflow v then jq_data s els ''max-error''
                    else if rangeUnderflow v then jq_data s els ''min-error''
                    else if valueMissing v then jq_data s els ''required-error''
                    else Null)))"

definition getGenericError :: "state \<Rightarrow> nat list \<Rightarrow> jsval" where
  "getGenericError s els = jq_data s els ''error''"

definition getErrorMessage :: "state \<Rightarrow> nat list \<Rightarrow> string \<Rightarrow> jsval completion" where
  "getErrorMessage s els key =
     (let a = getValidatorSpecificError s els key in
      if truthy a then Ret a
      else case getValidityStateError s els of
             Threw \<Rightarrow> Threw
           | Ret b \<Rightarrow> Ret (js_or b (getGenericError s els)))"

text \<open>
  The \<open>$.each\<close> over \<open>this.validators\<close> in \<open>runValidators\<close>, with \<open>errors\<close> as the
  accumulator. There is no \<open>try\<close> in the plugin: a validator that throws ends the loop.
\<close>

definition applies :: "state \<Rightarrow> nat list \<Rightarrow> string \<Rightarrow> bool" where
  "applies s els key =
     ((truthy (getValue s els) \<or> jq_required s els) \<and> (truthy (jq_data s els key) \<or> key = ''native''))"

fun each_validator :: "env \<Rightarrow> nat list \<Rightarrow> (string \<times> validator) list \<Rightarrow> state \<Rightarrow> jsval list
    \<Rightarrow> state \<times> jsval list completion" where
  "each_validator env els [] s errs = (s, Ret errs)"
| "each_validator env els ((key, v) # vs) s errs =
     (if applies s els key
      then
        (let s1 = s\<lparr>log := log s @ [Ran key els]\<rparr> in
         case call_validator env v s els of
           Threw \<Rightarrow> (s1, Threw)
         | Ret error \<Rightarrow>
             if truthy error then
               (case getErrorMessage s els key of
                  Threw \<Rightarrow> (s1, Threw)
                | Ret m \<Rightarrow>
                    (let error = js_or m error in
                     each_validator env els vs s1 (if error \<in> set errs then errs else errs @ [error])))
             else each_validator env els vs s1 errs)
      else each_validator env els vs s errs)"


definition showErrors :: "env \<Rightarrow> nat list \<Rightarrow> state \<Rightarrow> state \<times> unit completion" where
  "showErrors env els s =
     (let gs = closest s els; bs = find_blocks s gs; fs = find_feedbacks s gs in
      case jq_errors s els of
        None \<Rightarrow> (s, Threw)
      | Some errs \<Rightarrow>
          if errs = [] then (s, Ret ())
          else
            (let s1 = (case bs of
                         [] \<Rightarrow> s
                       | b # _ \<Rightarrow>
                           if originalContent (blocks s ! b) = None
                           then s\<lparr>blocks := update_at bs (\<lambda>x. x\<lparr>originalContent := Some (html (blocks s ! b))\<rparr>) (blocks s)\<rparr>
                           else s);
                 s2 = s1\<lparr>blocks := update_at bs (\<lambda>x. x\<lparr>html := Rendered (o_html (opts env)) errs\<rparr>) (blocks s1)\<rparr>;
                 s3 = s2\<lparr>groups := update_at gs (\<lambda>g. g\<lparr>has_error := True, has_danger := True\<rparr>) (groups s2)\<rparr>
             in if \<exists>g \<in> set gs. has_feedback (groups s3 ! g)
                then (s3\<lparr>feedbacks := update_at fs
                            (\<lambda>c. addClass (fb_error (opts env)) (removeClass (fb_success (opts env)) c)) (feedbacks s3),
                          groups := update_at gs (\<lambda>g. g\<lparr>has_success := False\<rparr>) (groups s3)\<rparr>, Ret ())
                else (s3, Ret ())))"

definition clearErrors :: "env \<Rightarrow> nat list \<Rightarrow> state \<Rightarrow> state" where
  "clearErrors env els s =
     (let gs = closest s els; bs = find_blocks s gs; fs = find_feedbacks s gs;
          s1 = (case bs of
                  [] \<Rightarrow> s
                | b # _ \<Rightarrow>
                    (case originalContent (blocks s ! b) of
                       None \<Rightarrow> s
                     | Some c \<Rightarrow> s\<lparr>blocks := update_at bs (\<lambda>x. x\<lparr>html := c\<rparr>) (blocks s)\<rparr>));
          s2 = s1\<lparr>groups := update_at gs
                  (\<lambda>g. g\<lparr>has_error := False, has_danger := False, has_success := False\<rparr>) (groups s1)\<rparr>
      in if \<exists>g \<in> set gs. has_feedback (groups s2 ! g)
         then (let s3 = s2\<lparr>feedbacks := update_at fs
                          (\<lambda>c. removeClass (fb_success (opts env)) (removeClass (fb_error (opts env)) c)) (feedbacks s2)\<rparr>
               in if truthy (getValue s3 els)
                  then s3\<lparr>feedbacks := update_at fs (addClass (fb_success (opts env))) (feedbacks s3),
                          groups := update_at gs (\<lambda>g. g\<lparr>has_success := True\<rparr>) (groups s3)\<rparr>
                  else s3)
         else s2)"

definition fieldErrors :: "state \<Rightarrow> nat \<Rightarrow> bool" where
  "fieldErrors s i = (case jq_errors s [i] of None \<Rightarrow> False | Some errs \<Rightarrow> errs \<noteq> [])"

definition hasErrors :: "state \<Rightarrow> bool" where
  "hasErrors s = (filter (fieldErrors s) (inputs s) \<noteq> [])"

definition fieldIncomplete :: "state \<Rightarrow> nat \<Rightarrow> bool" where
  "fieldIncomplete s i =
     (let v = getValue s [i] in \<not> truthy (case v of Str x \<Rightarrow> Str (trim x) | _ \<Rightarrow> v))"

definition isIncomplete :: "state \<Rightarrow> bool" where
  "isIncomplete s = (filter (fieldIncomplete s) (filter (\<lambda>i. jq_required s [i]) (inputs s)) \<noteq> [])"

definition toggleSubmit :: "env \<Rightarrow> state \<Rightarrow> state" where
  "toggleSubmit env s =
     (if \<not> disable (opts env) then s
      else s\<lparr>btn := map (\<lambda>_. isIncomplete s \<or> hasErrors s) (btn s)\<rparr>)"

text \<open>The function that \<open>runValidators\<close> defers: it sends the request. Its \<open>errors\<close> is the
  empty array, as the remote check is only made when there is no error.\<close>

definition remote_check :: "nat list \<Rightarrow> nat \<Rightarrow> state \<Rightarrow> state" where
  "remote_check els d s =
     s\<lparr>requests := requests s @
          [\<lparr>r_els = els, r_deferred = d, r_url = jq_data s els ''remote'',
            r_name = jq_name s els, r_value = getValue s els\<rparr>],
       log := log s @ [Get (jq_data s els ''remote'') (jq_name s els) (getValue s els)]\<rparr>"

fun run_callback :: "env \<Rightarrow> callback \<Rightarrow> state \<Rightarrow> state \<times> unit completion" where
  "run_callback env (ShowErrors els) s = showErrors env els s"
| "run_callback env (RemoteCheck els d) s = (remote_check els d s, Ret ())"

definition clearTimeout :: "nat option \<Rightarrow> state \<Rightarrow> state" where
  "clearTimeout h s =
     (case h of None \<Rightarrow> s | Some t \<Rightarrow> s\<lparr>timers := filter (\<lambda>(i, c). i \<noteq> t) (timers s)\<rparr>)"

definition defer_call :: "env \<Rightarrow> nat list \<Rightarrow> callback \<Rightarrow> state \<Rightarrow> state \<times> unit completion" where
  "defer_call env els callback s =
     (if delay (opts env) = 0 then run_callback env callback s
      else
        (let s1 = clearTimeout (jq_timeout s els) s;
             t = next_timer s1
         in (s1\<lparr>timers := timers s1 @ [(t, callback)], next_timer := Suc t,
                store := update_at els (\<lambda>e. e\<lparr>timeout := Some t\<rparr>) (store s1)\<rparr>, Ret ())))"

text \<open>The callback that \<open>validateInput\<close> adds to the promise of \<open>runValidators\<close>.\<close>

definition validated :: "env \<Rightarrow> nat list \<Rightarrow> bool \<Rightarrow> jsval list option \<Rightarrow> jsval list \<Rightarrow> state
    \<Rightarrow> state \<times> unit completion" where
  "validated env els deferErrors prevErrors errs s =
     (let s1 = s\<lparr>store := update_at els (\<lambda>e. e\<lparr>errors := Some errs\<rparr>) (store s)\<rparr> in
      case (if errs \<noteq> []
            then (if deferErrors then defer_call env els (ShowErrors els) s1 else showErrors env els s1)
            else (clearErrors env els s1, Ret ())) of
        (s2, Threw) \<Rightarrow> (s2, Threw)
      | (s2, Ret _) \<Rightarrow>
          (let s3 = (case prevErrors of
                       None \<Rightarrow> s2\<lparr>log := log s2 @
                           [if errs \<noteq> [] then EvInvalid (hd_opt els) errs else EvValid (hd_opt els) prevErrors]\<rparr>
                     | Some prev \<Rightarrow>
                         if js_join errs \<noteq> js_join prev
                         then s2\<lparr>log := log s2 @
                           [if errs \<noteq> [] then EvInvalid (hd_opt els) errs else EvValid (hd_opt els) prevErrors]\<rparr>
                         else s2);
               s4 = toggleSubmit env s3
           in (s4\<lparr>log := log s4 @ [EvValidated (hd_opt els)]\<rparr>, Ret ())))"

text \<open>Deferred objects: \<open>.reject()\<close>, \<open>.resolve(errors)\<close> and \<open>.done(callback)\<close>. Only a
  pending deferred changes state; a resolved one calls what was added with \<open>.done\<close>, and
  \<open>.done\<close> on a resolved one calls at once.\<close>

fun run_continuations :: "env \<Rightarrow> continuation list \<Rightarrow> jsval list \<Rightarrow> state \<Rightarrow> state \<times> unit completion" where
  "run_continuations env [] errs s = (s, Ret ())"
| "run_continuations env (Validated els deferErrors prevErrors # cs) errs s =
     (case validated env els deferErrors prevErrors errs s of
        (s1, Threw) \<Rightarrow> (s1, Threw)
      | (s1, Ret _) \<Rightarrow> run_continuations env cs errs s1)"
| "run_continuations env (Toggle # cs) errs s = run_continuations env cs errs (toggleSubmit env s)"

definition reject :: "nat \<Rightarrow> state \<Rightarrow> state" where
  "reject d s =
     (if d < length (deferreds s) \<and> status (deferreds s ! d) = Pending
      then s\<lparr>deferreds := (deferreds s)[d := \<lparr>status = Rejected, callbacks = []\<rparr>]\<rparr>
      else s)"

definition resolve :: "env \<Rightarrow> nat \<Rightarrow> jsval list \<Rightarrow> state \<Rightarrow> state \<times> unit completion" where
  "resolve env d errs s =
     (if d < length (deferreds s) \<and> status (deferreds s ! d) = Pending
      then run_continuations env (callbacks (deferreds s ! d)) errs
             (s\<lparr>deferreds := (deferreds s)[d := \<lparr>status = Resolved errs, callbacks = []\<rparr>]\<rparr>)
      else (s, Ret ()))"

definition promise_done :: "env \<Rightarrow> nat \<Rightarrow> continuation \<Rightarrow> state \<Rightarrow> state \<times> unit completion" where
  "promise_done env d c s =
     (if d < length (deferreds s) then
        (case status (deferreds s ! d) of
           Pending \<Rightarrow>
             (s\<lparr>deferreds := (deferreds s)[d := (deferreds s ! d)\<lparr>callbacks := callbacks (deferreds s ! d) @ [c]\<rparr>]\<rparr>,
              Ret ())
         | Resolved errs \<Rightarrow> run_continuations env [c] errs s
         | Rejected \<Rightarrow> (s, Ret ()))
      else (s, Ret ()))"

text \<open>\<open>runValidators\<close>. The deferred it makes is a new object, which the handle stored
  on the field cannot denote: in the model it is added once the stored one is rejected.\<close>

definition runValidators :: "env \<Rightarrow> nat list \<Rightarrow> state \<Rightarrow> state \<times> nat completion" where
  "runValidators env els s =
     (let s0 = (case jq_deferred s els of None \<Rightarrow> s | Some p \<Rightarrow> reject p s);
          d = length (deferreds s0);
          s1 = s0\<lparr>deferreds := deferreds s0 @ [\<lparr>status = Pending, callbacks = []\<rparr>]\<rparr>;
          s2 = s1\<lparr>store := update_at els (\<lambda>e. e\<lparr>deferred := Some d\<rparr>) (store s1)\<rparr>
      in case each_validator env els (validators env) s2 [] of
           (s3, Threw) \<Rightarrow> (s3, Threw)
         | (s3, Ret errs) \<Rightarrow>
             (case (if errs = [] \<and> truthy (getValue s3 els) \<and> truthy (jq_data s3 els ''remote'')
                    then defer_call env els (RemoteCheck els d) s3
                    else resolve env d errs s3) of
                (s4, Threw) \<Rightarrow> (s4, Threw)
              | (s4, Ret _) \<Rightarrow> (s4, Ret d)))"

text \<open>The set that \<open>validateInput\<close> works on: for a radio button, the inputs of the form
  with its name.\<close>

definition field_set :: "state \<Rightarrow> nat list \<Rightarrow> nat list" where
  "field_set s el =
     (if jq_is s el (\<lambda>e. etype e = Radio) then find_inputs_named s (name_string (jq_name s el)) else el)"

text \<open>\<open>validateInput\<close> returns \<open>undefined\<close> (\<open>None\<close>) when a subscriber prevented the
  default of \<open>validate.bs.validator\<close>, the promise otherwise.\<close>

definition validateInput :: "env \<Rightarrow> nat list \<Rightarrow> bool \<Rightarrow> state \<Rightarrow> state \<times> nat option completion" where
  "validateInput env el deferErrors s =
     (let prevErrors = jq_errors s el;
          els = field_set s el;
          s1 = s\<lparr>log := log s @ [EvValidate (hd_opt els)]\<rparr>
      in if veto env s (hd_opt els) then (s1, Ret None)
         else
           (case runValidators env els s1 of
              (s2, Threw) \<Rightarrow> (s2, Threw)
            | (s2, Ret d) \<Rightarrow>
                (case promise_done env d (Validated els deferErrors prevErrors) s2 of
                   (s3, Threw) \<Rightarrow> (s3, Threw)
                 | (s3, Ret _) \<Rightarrow> (s3, Ret (Some d)))))"

datatype etype = Input | Change | Focusout

text \<open>\<open>onInput\<close> calls \<open>.done\<close> on what \<open>validateInput\<close> returns, which throws on
  \<open>undefined\<close>.\<close>

definition onInput :: "env \<Rightarrow> etype \<Rightarrow> nat \<Rightarrow> state \<Rightarrow> state \<times> unit completion" where
  "onInput env ev target s =
     (let deferErrors = (ev \<noteq> Focusout) in
      if target \<notin> set (inputs s) then (s, Ret ())
      else
        (case validateInput env [target] deferErrors s of
           (s1, Threw) \<Rightarrow> (s1, Threw)
         | (s1, Ret None) \<Rightarrow> (s1, Threw)
         | (s1, Ret (Some d)) \<Rightarrow> promise_done env d Toggle s1))"

text \<open>\<open>validate\<close>: the \<open>map\<close> over \<open>$inputs\<close>, then the callback of \<open>$.when(...).then\<close>.
  \<open>$.when\<close> is given the jQuery set of the promises, which is not a promise, so it is
  resolved at once and the callback does not wait for a remote check. The callback only
  sets the class of the submit controls (a jQuery whose \<open>then\<close> calls back in a later
  turn does so after \<open>validate\<close> has returned; no property below depends on the
  moment). \<open>focusError\<close> scrolls and focuses, which is no state of the model.\<close>

fun validate_each :: "env \<Rightarrow> nat list \<Rightarrow> state \<Rightarrow> state \<times> unit completion" where
  "validate_each env [] s = (s, Ret ())"
| "validate_each env (i # is) s =
     (case validateInput env [i] False s of
        (s1, Threw) \<Rightarrow> (s1, Threw)
      | (s1, Ret _) \<Rightarrow> validate_each env is s1)"

definition validate :: "env \<Rightarrow> state \<Rightarrow> state \<times> unit completion" where
  "validate env s =
     (case validate_each env (inputs s) s of
        (s1, Threw) \<Rightarrow> (s1, Threw)
      | (s1, Ret _) \<Rightarrow> (toggleSubmit env s1, Ret ()))"

text \<open>\<open>onSubmit\<close> returns whether it called \<open>e.preventDefault()\<close>.\<close>

definition onSubmit :: "env \<Rightarrow> state \<Rightarrow> state \<times> bool completion" where
  "onSubmit env s =
     (case validate env s of
        (s1, Threw) \<Rightarrow> (s1, Threw)
      | (s1, Ret _) \<Rightarrow> (s1, Ret (isIncomplete s1 \<or> hasErrors s1)))"

text \<open>\<open>reset\<close>. \<open>window.clearTimeout\<close> returns \<open>undefined\<close>, so the \<open>removeData\<close> after
  \<open>&&\<close> is not reached and \<open>bs.validator.timeout\<close> stays on the element.\<close>

definition reset :: "env \<Rightarrow> state \<Rightarrow> state" where
  "reset env s =
     (let s1 = s\<lparr>feedbacks := map (\<lambda>c. removeClass (fb_success (opts env)) (removeClass (fb_error (opts env)) c))
                    (feedbacks s)\<rparr>;
          s2 = s1\<lparr>store := update_at (inputs s1) (\<lambda>e. e\<lparr>errors := None, deferred := None\<rparr>) (store s1)\<rparr>;
          s3 = fold (\<lambda>i. clearTimeout (jq_timeout s2 [i])) (inputs s2) s2;
          s4 = s3\<lparr>blocks := map (\<lambda>b. \<lparr>html = (case originalContent b of None \<Rightarrow> html b | Some c \<Rightarrow> c),
                                      originalContent = None\<rparr>) (blocks s3)\<rparr>;
          s5 = s4\<lparr>btn := map (\<lambda>_. False) (btn s4)\<rparr>
      in s5\<lparr>groups := map (\<lambda>g. g\<lparr>has_error := False, has_danger := False, has_success := False\<rparr>) (groups s5)\<rparr>)"


section \<open>What happens to the engine\<close>

text \<open>A timer runs out.\<close>

definition timeout_fires :: "env \<Rightarrow> nat \<Rightarrow> state \<Rightarrow> state \<times> unit completion" where
  "timeout_fires env t s =
     (case map_of (timers s) t of
        None \<Rightarrow> (s, Ret ())
      | Some callback \<Rightarrow> run_callback env callback (s\<lparr>timers := filter (\<lambda>(i, c). i \<noteq> t) (timers s)\<rparr>))"

text \<open>The answer to the \<open>k\<close>-th pending request arrives: \<open>.fail\<close> pushes a message onto
  \<open>errors\<close>, \<open>.always\<close> resolves the deferred.\<close>

datatype outcome = Success | Failure jsval

definition response :: "env \<Rightarrow> nat \<Rightarrow> outcome \<Rightarrow> state \<Rightarrow> state \<times> unit completion" where
  "response env k out s =
     (if k < length (requests s) then
        (let r = requests s ! k;
             s1 = s\<lparr>requests := take k (requests s) @ drop (Suc k) (requests s)\<rparr>
         in case out of
              Success \<Rightarrow> resolve env (r_deferred r) [] s1
            | Failure error \<Rightarrow>
                (case getErrorMessage s1 (r_els r) ''remote'' of
                   Threw \<Rightarrow> (s1, Threw)
                 | Ret m \<Rightarrow> resolve env (r_deferred r) [js_or m error] s1))
      else (s, Ret ()))"

text \<open>The fields whose handler is bound on \<open>t\<close>, in the order of binding.\<close>

definition dependents :: "state \<Rightarrow> nat \<Rightarrow> nat list" where
  "dependents s t = map snd (filter (\<lambda>(x, d). x = t) (bindings s))"

text \<open>
  \<open>$this.trigger('input.bs.validator')\<close> on element \<open>t\<close>: jQuery calls the handlers bound
  on \<open>t\<close> as a \<open>match\<close> target, each of which triggers the event on its dependent field
  when that field has a value, and then the handler of the form, \<open>onInput\<close>, all within the
  call of \<open>trigger\<close>; an exception ends it. Fields that are each other's target trigger one
  another without end: the first argument bounds the depth, and \<open>None\<close> is a call that
  did not finish within it.
\<close>

fun trigger_input :: "nat \<Rightarrow> env \<Rightarrow> nat \<Rightarrow> state \<Rightarrow> (state \<times> unit completion) option"
  and match_handlers :: "nat \<Rightarrow> env \<Rightarrow> nat list \<Rightarrow> state \<Rightarrow> (state \<times> unit completion) option" where
  "trigger_input 0 env t s = None"
| "trigger_input (Suc n) env t s =
     (case match_handlers n env (dependents s t) s of
        None \<Rightarrow> None
      | Some (s1, Threw) \<Rightarrow> Some (s1, Threw)
      | Some (s1, Ret _) \<Rightarrow>
          Some (if t < length (elements s1) \<and> in_form (elements s1 ! t)
                then onInput env Input t s1 else (s1, Ret ())))"
| "match_handlers n env [] s = Some (s, Ret ())"
| "match_handlers n env (d # ds) s =
     (case (if truthy (getValue s [d]) then trigger_input n env d s else Some (s, Ret ())) of
        None \<Rightarrow> None
      | Some (s1, Threw) \<Rightarrow> Some (s1, Threw)
      | Some (s1, Ret _) \<Rightarrow> match_handlers n env ds s1)"

text \<open>
  The user changes the field \<open>t\<close> and the browser dispatches \<open>input\<close> on it. The browser
  calls the listener that jQuery has put on \<open>t\<close>, which runs the handlers bound on \<open>t\<close>,
  and then the listener on the form, which runs \<open>onInput\<close>. An exception that leaves a
  listener is reported and does not keep the browser from calling the next one. The
  result holds how each of the two listeners ended.
\<close>

definition input_event :: "nat \<Rightarrow> env \<Rightarrow> nat \<Rightarrow> state \<Rightarrow> (state \<times> unit completion \<times> unit completion) option" where
  "input_event n env t s =
     (case match_handlers n env (dependents s t) s of
        None \<Rightarrow> None
      | Some (s1, r1) \<Rightarrow>
          (case (if t < length (elements s1) \<and> in_form (elements s1 ! t)
                 then onInput env Input t s1 else (s1, Ret ())) of
             (s2, r2) \<Rightarrow> Some (s2, r1, r2)))"

section \<open>The constructor\<close>

definition data_validate :: "element \<Rightarrow> jsval" where
  "data_validate e = (case map_of (attrs e) ''validate'' of None \<Rightarrow> Undefined | Some v \<Rightarrow> v)"

text \<open>jQuery's \<open>:input\<close>: \<open>input\<close>, \<open>select\<close>, \<open>textarea\<close> and \<open>button\<close> elements.\<close>

definition jq_input :: "element \<Rightarrow> bool" where
  "jq_input e = (tag e = InputTag \<or> tag e = SelectTag \<or> tag e = TextareaTag \<or> tag e = ButtonTag)"

text \<open>\<open>update\<close>: \<open>Validator.INPUT_SELECTOR\<close>, plus \<open>[data-validate="true"]\<close>, minus
  \<open>[data-validate="false"]\<close>, in the form.\<close>

definition update :: "state \<Rightarrow> state" where
  "update s =
     s\<lparr>inputs :=
         filter (\<lambda>i. let e = elements s ! i in
                   in_form e \<and>
                   ((jq_input e \<and> etype e \<noteq> Hidden \<and> etype e \<noteq> Submit \<and> etype e \<noteq> Reset \<and> tag e \<noteq> ButtonTag)
                     \<or> data_validate e = Bool True) \<and>
                   data_validate e \<noteq> Bool False)
           [0..<length (elements s)]\<rparr>"

text \<open>The handlers on the \<open>match\<close> targets: for each \<open>[data-match]\<close> of the form, one on
  every element of \<open>$(target)\<close>. A \<open>data-match\<close> that jQuery reads as something else than
  a string is no selector and picks no element of the page.\<close>

definition match_bindings :: "env \<Rightarrow> state \<Rightarrow> (nat \<times> nat) list" where
  "match_bindings env s =
     concat (map (\<lambda>d. case jq_data s [d] ''match'' of
                        Str t \<Rightarrow> map (\<lambda>x. (x, d)) (selector env t)
                      | _ \<Rightarrow> [])
               (filter (\<lambda>d. in_form (elements s ! d) \<and> map_of (attrs (elements s ! d)) ''match'' \<noteq> None)
                  [0..<length (elements s)]))"

fun focusout_each :: "env \<Rightarrow> nat list \<Rightarrow> state \<Rightarrow> state \<times> unit completion" where
  "focusout_each env [] s = (s, Ret ())"
| "focusout_each env (i # is) s =
     (case onInput env Focusout i s of
        (s1, Threw) \<Rightarrow> (s1, Threw)
      | (s1, Ret _) \<Rightarrow> focusout_each env is s1)"

definition Validator :: "env \<Rightarrow> state \<Rightarrow> state \<times> unit completion" where
  "Validator env s =
     (let s1 = update s;
          s2 = s1\<lparr>bindings := match_bindings env s1\<rparr>
      in case focusout_each env (filter (\<lambda>i. truthy (getValue s2 [i])) (inputs s2)) s2 of
           (s3, Threw) \<Rightarrow> (s3, Threw)
         | (s3, Ret _) \<Rightarrow> (toggleSubmit env s3, Ret ()))"

section \<open>Notions for the properties\<close>

text \<open>What no operation of the engine changes: the elements, \<open>$inputs\<close>, the bindings, the
  groups with the error blocks below each, and the number of blocks, icons and submit
  controls; the log only grows, and \<open>R\<close> holds of the validator calls that were added to
  it.\<close>

definition frame :: "(string \<Rightarrow> nat list \<Rightarrow> bool) \<Rightarrow> state \<Rightarrow> state \<Rightarrow> bool" where
  "frame R s s' =
     (elements s' = elements s \<and> inputs s' = inputs s \<and> bindings s' = bindings s \<and>
      length (store s') = length (store s) \<and> map g_blocks (groups s') = map g_blocks (groups s) \<and>
      length (blocks s') = length (blocks s) \<and> length (feedbacks s') = length (feedbacks s) \<and>
      length (btn s') = length (btn s) \<and>
      (\<exists>l. log s' = log s @ l \<and> (\<forall>k t. Ran k t \<in> set l \<longrightarrow> R k t)))"

text \<open>A page to run the engine on: a text input in the form that satisfies its
  constraints, nothing stored on it, and a form with one group, one error block, one
  feedback icon and one submit button.\<close>

definition satisfied :: validity where
  "satisfied = \<lparr>typeMismatch = False, patternMismatch = False, stepMismatch = False,
     rangeOverflow = False, rangeUnderflow = False, valueMissing = False, valid = True,
     checkValidity = True, validationMessage = []\<rparr>"

definition text_input :: element where
  "text_input = \<lparr>in_form = True, tag = InputTag,
     etype = Text, name = None, required = False, val = [], checked = False, selected = False, attrs = [],
     api = Some satisfied, group = Some 0\<rparr>"

definition no_data :: pdata where
  "no_data = \<lparr>errors = None, deferred = None, timeout = None\<rparr>"

definition form_of :: "element list \<Rightarrow> state" where
  "form_of es =
     \<lparr>elements = es, store = map (\<lambda>_. no_data) es,
      groups = [\<lparr>has_error = False, has_danger = False, has_success = False, has_feedback = True,
                 g_blocks = [0], g_feedbacks = [0]\<rparr>],
      blocks = [\<lparr>html = Markup ''hint'', originalContent = None\<rparr>],
      feedbacks = [[]], btn = [False], inputs = [0..<length es], bindings = [],
      timers = [], next_timer = 1, deferreds = [], requests = [], log = []\<rparr>"

definition engine :: "options \<Rightarrow> (string \<times> validator) list \<Rightarrow> env" where
  "engine os custom =
     \<lparr>opts = os, validators = extend VALIDATORS custom, selector = (\<lambda>_. []), veto = (\<lambda>_ _. False)\<rparr>"

text \<open>The state in which \<open>runValidators\<close> starts its loop: the stored deferred is
  rejected and the new one is stored on the field.\<close>

definition before_loop :: "state \<Rightarrow> nat list \<Rightarrow> state" where
  "before_loop s els =
     (let s0 = (case jq_deferred s els of None \<Rightarrow> s | Some p \<Rightarrow> reject p s);
          s1 = s0\<lparr>deferreds := deferreds s0 @ [\<lparr>status = Pending, callbacks = []\<rparr>]\<rparr>
      in s1\<lparr>store := update_at els (\<lambda>e. e\<lparr>deferred := Some (length (deferreds s0))\<rparr>) (store s1)\<rparr>)"

text \<open>A form with one text field that declares two custom validators, and an engine
  whose first custom validator throws.\<close>

definition coupon_form :: state where
  "coupon_form = form_of [text_input\<lparr>val := ''ABC'', attrs := [(''coupon'', Bool True), (''stock'', Bool True)]\<rparr>]"

definition coupon_engine :: env where
  "coupon_engine = engine DEFAULTS
     [(''coupon'', Custom (\<lambda>_ _. Threw)), (''stock'', Custom (\<lambda>_ _. Ret (Str ''sold out'')))]"

text \<open>A form with a password field \<open>#pw\<close> and a confirmation field that must match it;
  the engine's selector engine finds \<open>#pw\<close>.\<close>

definition match_form :: "string \<Rightarrow> string \<Rightarrow> state" where
  "match_form pw confirm =
     form_of [text_input\<lparr>val := pw\<rparr>, text_input\<lparr>val := confirm, attrs := [(''match'', Str ''#pw'')]\<rparr>]"

definition match_engine :: env where
  "match_engine = (engine DEFAULTS [])\<lparr>selector := (\<lambda>sel. if sel = ''#pw'' then [0] else [])\<rparr>"

text \<open>The same form with the handler that the constructor binds on \<open>#pw\<close>.\<close>

definition bound_match_form :: "string \<Rightarrow> string \<Rightarrow> state" where
  "bound_match_form pw confirm =
     (match_form pw confirm)\<lparr>bindings := match_bindings match_engine (match_form pw confirm)\<rparr>"

text \<open>A radio input of the form named \<open>plan\<close>, and a page on which a checkbox outside
  the form has the same name.\<close>

definition plan_radio :: element where
  "plan_radio = text_input\<lparr>etype := Radio, name := Some ''plan''\<rparr>"

definition plan_checkbox :: element where
  "plan_checkbox = text_input\<lparr>in_form := False, etype := Checkbox, name := Some ''plan'', checked := True\<rparr>"

text \<open>A form with one field that has a value and a remote check.\<close>

definition remote_form :: state where
  "remote_form = form_of [text_input\<lparr>name := Some ''user'', val := ''abc'', attrs := [(''remote'', Str ''/check'')]\<rparr>]"

text \<open>An error block is in order with respect to the content \<open>c\<close> that the page gave it
  when it shows \<open>c\<close> and nothing is saved, or \<open>c\<close> is what is saved as its original
  content.\<close>

definition block_ok :: "content \<Rightarrow> block \<Rightarrow> bool" where
  "block_ok c b = (case originalContent b of None \<Rightarrow> html b = c | Some c' \<Rightarrow> c' = c)"

definition blocks_ok :: "content list \<Rightarrow> state \<Rightarrow> bool" where
  "blocks_ok orig s = list_all2 block_ok orig (blocks s)"

text \<open>A required field with a minimal length of 5 and the value \<open>abc\<close>, and the form after
  a pass on it, which shows the error.\<close>

definition short_form :: state where
  "short_form = form_of [text_input\<lparr>required := True, val := ''abc'', attrs := [(''minlength'', Num 5)]\<rparr>]"

definition errored_form :: state where
  "errored_form = fst (validateInput (engine DEFAULTS []) [0] False short_form)"

text \<open>The user edits a field: the browser sets its value.\<close>

definition type_into :: "nat \<Rightarrow> string \<Rightarrow> state \<Rightarrow> state" where
  "type_into i v s = s\<lparr>elements := (elements s)[i := (elements s ! i)\<lparr>val := v\<rparr>]\<rparr>"

text \<open>
  A run of the engine without debounce delay on the form with the remote check: the user
  types \<open>abc\<close>, which sends request 0; the form is reset; the user types \<open>abcd\<close>, which
  sends request 1. The same run without the reset.
\<close>

definition prompt_engine :: env where
  "prompt_engine = engine (DEFAULTS\<lparr>delay := 0\<rparr>) []"

definition typed_reset_typed :: state where
  "typed_reset_typed =
     fst (onInput prompt_engine Input 0
       (type_into 0 ''abcd'' (reset prompt_engine (fst (onInput prompt_engine Input 0 remote_form)))))"

definition typed_typed :: state where
  "typed_typed =
     fst (onInput prompt_engine Input 0
       (type_into 0 ''abcd'' (fst (onInput prompt_engine Input 0 remote_form))))"

text \<open>The groups of a set of elements hold at most one error block.\<close>

definition narrow :: "state \<Rightarrow> nat list \<Rightarrow> bool" where
  "narrow s els = (length (find_blocks s (closest s els)) \<le> 1)"

text \<open>A form whose group holds two error blocks, and the form after a pass that shows an
  error.\<close>

definition two_block_form :: state where
  "two_block_form =
     short_form\<lparr>groups := [\<lparr>has_error = False, has_danger = False, has_success = False,
                              has_feedback = True, g_blocks = [0, 1], g_feedbacks = [0]\<rparr>],
                 blocks := [\<lparr>html = Markup ''hint'', originalContent = None\<rparr>,
                            \<lparr>html = Markup ''note'', originalContent = None\<rparr>]\<rparr>"

definition errored_two_block_form :: state where
  "errored_two_block_form = fst (validateInput (engine DEFAULTS []) [0] False two_block_form)"

text \<open>The passes that a log records: the related targets of its \<open>validate\<close> notifications,
  in their order.\<close>

fun pass_of :: "event \<Rightarrow> nat option list" where
  "pass_of (EvValidate e) = [e]"
| "pass_of _ = []"

definition passes :: "event list \<Rightarrow> nat option list" where
  "passes l = concat (map pass_of l)"





text \<open>An option outside the form that is selected and has the name \<open>plan\<close>.\<close>

definition plan_option :: element where
  "plan_option = text_input\<lparr>in_form := False, tag := OptionTag, name := Some ''plan'', selected := True\<rparr>"

text \<open>The form with the short value after an \<open>input\<close> event, which leaves a timer that
  will show the error.\<close>

definition debounced_form :: state where
  "debounced_form = fst (onInput (engine DEFAULTS []) Input 0 short_form)"

text \<open>An engine in which a subscriber cancels every pass on the confirmation field.\<close>

definition cancelling_engine :: env where
  "cancelling_engine = match_engine\<lparr>veto := (\<lambda>s e. e = Some 1)\<rparr>"

section \<open>Basic facts\<close>

lemma length_update_at [simp]: "length (update_at is f xs) = length xs"
  by (simp add: update_at_def)

lemma nth_update_at:
  "i < length xs \<Longrightarrow> update_at is f xs ! i = (if i \<in> set is then f (xs ! i) else xs ! i)"
  by (simp add: update_at_def nth_enumerate_eq)

lemma update_at_Nil [simp]: "update_at [] f xs = xs"
  by (simp add: update_at_def list_eq_iff_nth_eq nth_enumerate_eq)

lemma map_update_at: "(\<And>x. g (f x) = g x) \<Longrightarrow> map g (update_at is f xs) = map g xs"
  by (simp add: list_eq_iff_nth_eq nth_update_at)

lemma first_el_cong: assumes "elements s' = elements s" shows "first_el s' els = first_el s els"
  unfolding first_el_def assms by (rule refl)

lemma jq_data_cong: assumes "elements s' = elements s" shows "jq_data s' els key = jq_data s els key"
  unfolding jq_data_def first_el_cong[OF assms] by (rule refl)

lemma jq_val_cong: assumes "elements s' = elements s" shows "jq_val s' els = jq_val s els"
  unfolding jq_val_def first_el_cong[OF assms] by (rule refl)

lemma jq_required_cong: assumes "elements s' = elements s" shows "jq_required s' els = jq_required s els"
  unfolding jq_required_def first_el_cong[OF assms] by (rule refl)

lemma jq_name_cong: assumes "elements s' = elements s" shows "jq_name s' els = jq_name s els"
  unfolding jq_name_def first_el_cong[OF assms] by (rule refl)

lemma jq_checked_cong: assumes "elements s' = elements s" shows "jq_checked s' els = jq_checked s els"
  unfolding jq_checked_def first_el_cong[OF assms] by (rule refl)

lemma getValue_cong: assumes "elements s' = elements s" shows "getValue s' els = getValue s els"
  unfolding getValue_def jq_is_def checked_named_def jq_checked_cong[OF assms] jq_val_cong[OF assms]
    jq_name_cong[OF assms] assms by (rule refl)

lemma applies_cong: assumes "elements s' = elements s" shows "applies s' els key = applies s els key"
  unfolding applies_def getValue_cong[OF assms] jq_required_cong[OF assms] jq_data_cong[OF assms]
  by (rule refl)

lemma getErrorMessage_cong:
  assumes "elements s' = elements s" shows "getErrorMessage s' els key = getErrorMessage s els key"
  unfolding getErrorMessage_def getValidatorSpecificError_def getValidityStateError_def
    getGenericError_def jq_data_cong[OF assms] first_el_cong[OF assms] by (rule refl)

lemma call_validator_cong:
  assumes "elements s' = elements s" shows "call_validator env v s' els = call_validator env v s els"
proof (cases v)
  case Native
  show ?thesis unfolding Native call_validator.simps native_def first_el_cong[OF assms] by (rule refl)
next
  case Match
  show ?thesis unfolding Match call_validator.simps match_def target_val_def jq_val_cong[OF assms]
      jq_data_cong[OF assms] by (rule refl)
next
  case Minlength
  show ?thesis unfolding Minlength call_validator.simps minlength_def jq_data_cong[OF assms]
      first_el_cong[OF assms] by (rule refl)
next
  case (Custom f)
  show ?thesis unfolding Custom call_validator.simps assms by (rule refl)
qed


lemma each_validator_log:
  "each_validator env els vs s errs = (s', r) \<Longrightarrow>
     \<exists>l. s' = s\<lparr>log := log s @ l\<rparr> \<and>
         (\<forall>e \<in> set l. \<exists>k. e = Ran k els \<and> k \<in> fst ` set vs \<and> applies s els k)"
proof (induction vs arbitrary: s errs)
  case Nil
  then show ?case by auto
next
  case (Cons kv vs)
  obtain key v where kv: "kv = (key, v)" by (cases kv)
  show ?case
  proof (cases "applies s els key")
    case False
    with Cons.prems kv have "each_validator env els vs s errs = (s', r)" by simp
    from Cons.IH[OF this] obtain l where "s' = s\<lparr>log := log s @ l\<rparr>"
      "\<forall>e \<in> set l. \<exists>k. e = Ran k els \<and> k \<in> fst ` set vs \<and> applies s els k" by blast
    then show ?thesis by (intro exI[of _ l]) (auto simp: kv)
  next
    case True
    let ?s1 = "s\<lparr>log := log s @ [Ran key els]\<rparr>"
    have el: "elements ?s1 = elements s" by simp
    consider (thr) "s' = ?s1" | (rec) errs' where "each_validator env els vs ?s1 errs' = (s', r)"
      using Cons.prems kv True
      by (auto simp: Let_def split: completion.splits if_splits)
    then show ?thesis
    proof cases
      case thr
      then show ?thesis using True by (intro exI[of _ "[Ran key els]"]) (auto simp: kv)
    next
      case rec
      from Cons.IH[OF rec] obtain l where l: "s' = ?s1\<lparr>log := log ?s1 @ l\<rparr>"
        "\<forall>e \<in> set l. \<exists>k. e = Ran k els \<and> k \<in> fst ` set vs \<and> applies ?s1 els k" by blast
      have "s' = s\<lparr>log := log s @ (Ran key els # l)\<rparr>" using l(1) by simp
      moreover have "\<forall>e \<in> set (Ran key els # l). \<exists>k. e = Ran k els \<and> k \<in> fst ` set (kv # vs) \<and> applies s els k"
        using l(2) True unfolding applies_cong[OF el] by (auto simp: kv)
      ultimately show ?thesis by blast
    qed
  qed
qed


lemma frame_refl [simp]: "frame R s s"
  by (simp add: frame_def)

lemma frame_trans: "frame R s s1 \<Longrightarrow> frame R s1 s2 \<Longrightarrow> frame R s s2"
  by (auto simp: frame_def)

lemma frame_mono: "frame R s s' \<Longrightarrow> (\<And>k t. R k t \<Longrightarrow> Q k t) \<Longrightarrow> frame Q s s'"
  by (auto simp: frame_def)

lemma frame_elements: "frame R s s' \<Longrightarrow> elements s' = elements s"
  by (simp add: frame_def)

lemma frame_log: "frame R s s' \<Longrightarrow> \<exists>l. log s' = log s @ l \<and> (\<forall>k t. Ran k t \<in> set l \<longrightarrow> R k t)"
  by (simp add: frame_def)

lemma frame_showErrors: "frame R s (fst (showErrors env els s))"
  by (simp add: showErrors_def frame_def Let_def map_update_at split: option.splits list.splits)

lemma frame_clearErrors: "frame R s (clearErrors env els s)"
  by (simp add: clearErrors_def frame_def Let_def map_update_at split: option.splits list.splits)

lemma frame_toggleSubmit: "frame R s (toggleSubmit env s)"
  by (simp add: toggleSubmit_def frame_def)

lemma frame_run_callback: "frame R s (fst (run_callback env cb s))"
  by (cases cb) (simp_all add: frame_showErrors, simp add: frame_def remote_check_def)

lemma frame_clearTimeout: "frame R s (clearTimeout h s)"
  by (simp add: clearTimeout_def frame_def split: option.splits)

lemma frame_defer_call: "frame R s (fst (defer_call env els cb s))"
  by (simp add: defer_call_def frame_run_callback Let_def)
     (simp add: frame_def clearTimeout_def split: option.splits)

lemma frame_validated: "frame R s (fst (validated env els de prev errs s))"
proof -
  let ?s1 = "s\<lparr>store := update_at els (\<lambda>e. e\<lparr>errors := Some errs\<rparr>) (store s)\<rparr>"
  have f1: "frame R s ?s1" by (simp add: frame_def)
  define p where "p = (if errs \<noteq> []
            then (if de then defer_call env els (ShowErrors els) ?s1 else showErrors env els ?s1)
            else (clearErrors env els ?s1, Ret ()))"
  have f2: "frame R ?s1 (fst p)"
    by (simp add: p_def frame_defer_call frame_showErrors frame_clearErrors)
  have f3: "frame R (fst p) (fst (validated env els de prev errs s))"
    unfolding validated_def Let_def p_def[symmetric]
    by (cases p; cases "snd p")
       (auto simp: frame_def toggleSubmit_def split: option.splits)
  show ?thesis using frame_trans[OF f1 frame_trans[OF f2 f3]] .
qed

lemma frame_run_continuations: "frame R s (fst (run_continuations env cs errs s))"
proof (induction cs arbitrary: s)
  case Nil
  show ?case by simp
next
  case (Cons c cs)
  show ?case
  proof (cases c)
    case (Validated els de prev)
    obtain s1 r where v: "validated env els de prev errs s = (s1, r)" by (cases "validated env els de prev errs s")
    have f1: "frame R s s1" using frame_validated[of R s env els de prev errs] v by simp
    show ?thesis using f1 frame_trans[OF f1 Cons.IH[of s1]]
      by (cases r) (simp_all add: Validated v)
  next
    case Toggle
    show ?thesis using frame_trans[OF frame_toggleSubmit Cons.IH] by (simp add: Toggle)
  qed
qed

lemma frame_reject: "frame R s (reject d s)"
  by (simp add: reject_def frame_def)

lemma frame_resolve: "frame R s (fst (resolve env d errs s))"
proof (cases "d < length (deferreds s) \<and> status (deferreds s ! d) = Pending")
  case True
  let ?s1 = "s\<lparr>deferreds := (deferreds s)[d := \<lparr>status = Resolved errs, callbacks = []\<rparr>]\<rparr>"
  have "frame R s ?s1" by (simp add: frame_def)
  from frame_trans[OF this frame_run_continuations] show ?thesis using True by (simp add: resolve_def)
next
  case False
  then show ?thesis by (auto simp: resolve_def)
qed

lemma frame_promise_done: "frame R s (fst (promise_done env d c s))"
proof -
  have "frame R s (s\<lparr>deferreds := x\<rparr>)" for x by (simp add: frame_def)
  then show ?thesis
    by (auto simp: promise_done_def frame_run_continuations split: dstatus.splits)
qed

lemma fst_case_completion:
  "fst (case p of (s, Threw) \<Rightarrow> (s, Threw) | (s, Ret x) \<Rightarrow> (s, Ret (g x))) = fst p"
  by (cases p; cases "snd p") auto

lemma frame_each_validator:
  "frame (\<lambda>k t. t = els \<and> k \<in> fst ` set vs \<and> applies s els k) s (fst (each_validator env els vs s errs))"
proof -
  obtain s' r where e: "each_validator env els vs s errs = (s', r)"
    by (cases "each_validator env els vs s errs")
  from each_validator_log[OF e] obtain l where "s' = s\<lparr>log := log s @ l\<rparr>"
    "\<forall>e \<in> set l. \<exists>k. e = Ran k els \<and> k \<in> fst ` set vs \<and> applies s els k" by blast
  then show ?thesis by (auto simp: e frame_def)
qed

lemma frame_runValidators:
  "frame (\<lambda>k t. t = els \<and> k \<in> fst ` set (validators env) \<and> applies s els k) s (fst (runValidators env els s))"
proof -
  let ?R = "\<lambda>k t. t = els \<and> k \<in> fst ` set (validators env) \<and> applies s els k"
  define s0 where "s0 = (case jq_deferred s els of None \<Rightarrow> s | Some p \<Rightarrow> reject p s)"
  define s1 where "s1 = s0\<lparr>deferreds := deferreds s0 @ [\<lparr>status = Pending, callbacks = []\<rparr>]\<rparr>"
  define s2 where "s2 = s1\<lparr>store := update_at els (\<lambda>e. e\<lparr>deferred := Some (length (deferreds s0))\<rparr>) (store s1)\<rparr>"
  obtain s3 r where e: "each_validator env els (validators env) s2 [] = (s3, r)"
    by (cases "each_validator env els (validators env) s2 []")
  have f0: "frame ?R s s0" by (simp add: s0_def frame_reject split: option.splits)
  have f1: "frame ?R s0 s1" by (simp add: s1_def frame_def)
  have f2: "frame ?R s1 s2" by (simp add: s2_def frame_def)
  have f02: "frame ?R s s2" using f0 f1 f2 frame_trans by blast
  have ap: "applies s2 els k = applies s els k" for k
    by (rule applies_cong) (rule frame_elements[OF f02])
  have f3: "frame ?R s2 s3" using frame_each_validator[of els "validators env" s2 env "[]"] e
    by (simp add: ap)
  have f03: "frame ?R s s3" using f02 f3 frame_trans by blast
  have rv: "runValidators env els s =
      (case r of Threw \<Rightarrow> (s3, Threw)
       | Ret errs \<Rightarrow>
          (case (if errs = [] \<and> truthy (getValue s3 els) \<and> truthy (jq_data s3 els ''remote'')
                    then defer_call env els (RemoteCheck els (length (deferreds s0))) s3
                    else resolve env (length (deferreds s0)) errs s3) of
                (s4, Threw) \<Rightarrow> (s4, Threw)
              | (s4, Ret _) \<Rightarrow> (s4, Ret (length (deferreds s0)))))"
    unfolding runValidators_def Let_def s0_def[symmetric] s1_def[symmetric] s2_def[symmetric] e
    by (simp split: completion.splits)
  show ?thesis
  proof (cases r)
    case Threw
    then show ?thesis using f03 by (simp add: rv)
  next
    case (Ret errs)
    define p where "p = (if errs = [] \<and> truthy (getValue s3 els) \<and> truthy (jq_data s3 els ''remote'')
                    then defer_call env els (RemoteCheck els (length (deferreds s0))) s3
                    else resolve env (length (deferreds s0)) errs s3)"
    have "frame ?R s3 (fst p)" by (simp add: p_def frame_defer_call frame_resolve)
    with f03 have "frame ?R s (fst p)" using frame_trans by blast
    moreover have "fst (runValidators env els s) = fst p"
      unfolding rv Ret p_def by (simp add: fst_case_completion)
    ultimately show ?thesis by simp
  qed
qed

text \<open>The validator calls of a pass are calls on the field's set, of validators that
  apply to it.\<close>

lemma frame_validateInput:
  "frame (\<lambda>k t. t = field_set s el \<and> k \<in> fst ` set (validators env) \<and> applies s (field_set s el) k)
     s (fst (validateInput env el de s))"
proof -
  define els where "els = field_set s el"
  let ?R = "\<lambda>k t. t = els \<and> k \<in> fst ` set (validators env) \<and> applies s els k"
  define s1 where "s1 = s\<lparr>log := log s @ [EvValidate (hd_opt els)]\<rparr>"
  have f1: "frame ?R s s1" by (simp add: s1_def frame_def)
  have ap: "applies s1 els k = applies s els k" for k
    by (rule applies_cong) (simp add: s1_def)
  have "frame ?R s (fst (validateInput env el de s))"
  proof (cases "veto env s (hd_opt els)")
    case True
    then show ?thesis using f1
      by (simp add: validateInput_def Let_def els_def[symmetric] s1_def[symmetric])
  next
    case False
    obtain s2 r where rv: "runValidators env els s1 = (s2, r)" by (cases "runValidators env els s1")
    have f2: "frame ?R s1 s2" using frame_runValidators[of els env s1] rv by (simp add: ap)
    show ?thesis
    proof (cases r)
      case Threw
      then show ?thesis using False frame_trans[OF f1 f2]
        by (simp add: validateInput_def Let_def els_def[symmetric] s1_def[symmetric] rv)
    next
      case (Ret d)
      obtain s3 r3 where pd: "promise_done env d (Validated els de (jq_errors s el)) s2 = (s3, r3)"
        by (cases "promise_done env d (Validated els de (jq_errors s el)) s2")
      have f3: "frame ?R s2 s3"
        using frame_promise_done[of ?R s2 env d "Validated els de (jq_errors s el)"] pd by simp
      have "frame ?R s s3" using f1 f2 f3 frame_trans by blast
      then show ?thesis using False Ret
        by (cases r3) (simp_all add: validateInput_def Let_def els_def[symmetric] s1_def[symmetric] rv pd)
    qed
  qed
  then show ?thesis by (simp add: els_def)
qed


lemma frame_validate_each: "frame (\<lambda>k t. True) s (fst (validate_each env is s))"
proof (induction "is" arbitrary: s)
  case Nil
  show ?case by simp
next
  case (Cons i "is")
  obtain s1 r where v: "validateInput env [i] False s = (s1, r)" by (cases "validateInput env [i] False s")
  have f1: "frame (\<lambda>k t. True) s s1"
    using frame_mono[OF frame_validateInput[of s "[i]" env False]] v by simp
  show ?case using f1 frame_trans[OF f1 Cons.IH[of s1]] by (cases r) (simp_all add: v)
qed

lemma frame_validate: "frame (\<lambda>k t. True) s (fst (validate env s))"
proof -
  obtain s1 r where v: "validate_each env (inputs s) s = (s1, r)" by (cases "validate_each env (inputs s) s")
  have f1: "frame (\<lambda>k t. True) s s1" using frame_validate_each[of s env "inputs s"] v by simp
  show ?thesis using f1 frame_trans[OF f1 frame_toggleSubmit[of _ s1 env]]
    by (cases r) (simp_all add: validate_def v)
qed

lemma length_deferreds_reject [simp]: "length (deferreds (reject p s)) = length (deferreds s)"
  by (simp add: reject_def)

lemma before_loop_simps:
  "elements (before_loop s els) = elements s"
  "log (before_loop s els) = log s"
  "groups (before_loop s els) = groups s"
  "blocks (before_loop s els) = blocks s"
  "feedbacks (before_loop s els) = feedbacks s"
  "btn (before_loop s els) = btn s"
  "timers (before_loop s els) = timers s"
  "requests (before_loop s els) = requests s"
  "inputs (before_loop s els) = inputs s"
  "length (deferreds (before_loop s els)) = Suc (length (deferreds s))"
  "deferreds (before_loop s els) ! length (deferreds s) = \<lparr>status = Pending, callbacks = []\<rparr>"
  "map errors (store (before_loop s els)) = map errors (store s)"
  "map timeout (store (before_loop s els)) = map timeout (store s)"
  "length (store (before_loop s els)) = length (store s)"
  by (simp_all add: before_loop_def Let_def reject_def nth_append map_update_at split: option.splits)

text \<open>The errors of the loop do not depend on anything but the elements.\<close>

lemma each_validator_snd_cong:
  "elements s' = elements s \<Longrightarrow>
     snd (each_validator env els vs s' errs) = snd (each_validator env els vs s errs)"
proof (induction vs arbitrary: s s' errs)
  case Nil
  show ?case by simp
next
  case (Cons kv vs)
  obtain key v where kv: "kv = (key, v)" by (cases kv)
  have a: "applies s' els key = applies s els key" by (rule applies_cong[OF Cons.prems])
  have c: "call_validator env v s' els = call_validator env v s els" by (rule call_validator_cong[OF Cons.prems])
  have g: "getErrorMessage s' els key = getErrorMessage s els key" by (rule getErrorMessage_cong[OF Cons.prems])
  have i: "snd (each_validator env els vs (s'\<lparr>log := x\<rparr>) e) = snd (each_validator env els vs (s\<lparr>log := y\<rparr>) e)" for x y e
    by (rule Cons.IH) (simp add: Cons.prems)
  have j: "snd (each_validator env els vs s' e) = snd (each_validator env els vs s e)" for e
    by (rule Cons.IH) (simp add: Cons.prems)
  show ?case
    unfolding kv each_validator.simps a c g Let_def
    by (simp add: i j split: completion.splits)
qed

lemma runValidators_unfold:
  "runValidators env els s =
     (case each_validator env els (validators env) (before_loop s els) [] of
        (s3, Threw) \<Rightarrow> (s3, Threw)
      | (s3, Ret errs) \<Rightarrow>
          (case (if errs = [] \<and> truthy (getValue s els) \<and> truthy (jq_data s els ''remote'')
                 then defer_call env els (RemoteCheck els (length (deferreds s))) s3
                 else resolve env (length (deferreds s)) errs s3) of
             (s4, Threw) \<Rightarrow> (s4, Threw)
           | (s4, Ret _) \<Rightarrow> (s4, Ret (length (deferreds s)))))"
proof -
  obtain s3 r where e: "each_validator env els (validators env) (before_loop s els) [] = (s3, r)"
    by (cases "each_validator env els (validators env) (before_loop s els) []")
  have "frame (\<lambda>k t. True) (before_loop s els) s3"
    using frame_mono[OF frame_each_validator[of els "validators env" "before_loop s els" env "[]"]] e by simp
  then have el: "elements s3 = elements s" by (simp add: frame_def before_loop_simps)
  have l: "length (deferreds (case jq_deferred s els of None \<Rightarrow> s | Some p \<Rightarrow> reject p s)) = length (deferreds s)"
    by (simp split: option.splits)
  have step: "runValidators env els s =
     (case each_validator env els (validators env) (before_loop s els) [] of
        (s3, Threw) \<Rightarrow> (s3, Threw)
      | (s3, Ret errs) \<Rightarrow>
          (case (if errs = [] \<and> truthy (getValue s3 els) \<and> truthy (jq_data s3 els ''remote'')
                 then defer_call env els (RemoteCheck els (length (deferreds (case jq_deferred s els of None \<Rightarrow> s | Some p \<Rightarrow> reject p s)))) s3
                 else resolve env (length (deferreds (case jq_deferred s els of None \<Rightarrow> s | Some p \<Rightarrow> reject p s))) errs s3) of
             (s4, Threw) \<Rightarrow> (s4, Threw)
           | (s4, Ret _) \<Rightarrow> (s4, Ret (length (deferreds (case jq_deferred s els of None \<Rightarrow> s | Some p \<Rightarrow> reject p s))))))"
    unfolding runValidators_def before_loop_def Let_def by (rule refl)
  show ?thesis
    unfolding step e l
    by (simp add: getValue_cong[OF el] jq_data_cong[OF el] split: completion.splits)
qed

lemma each_validator_state:
  "each_validator env els vs s errs = (s', r) \<Longrightarrow> \<exists>l. s' = s\<lparr>log := log s @ l\<rparr>"
  using each_validator_log by blast

lemma runValidators_sync:
  assumes "snd (each_validator env els (validators env) s []) = Ret errs"
      and "\<not> (errs = [] \<and> truthy (getValue s els) \<and> truthy (jq_data s els ''remote''))"
  shows "\<exists>l. runValidators env els s =
           ((before_loop s els)\<lparr>log := log s @ l,
               deferreds := (deferreds (before_loop s els))[length (deferreds s) := \<lparr>status = Resolved errs, callbacks = []\<rparr>]\<rparr>,
            Ret (length (deferreds s)))"
proof -
  obtain s3 r where e: "each_validator env els (validators env) (before_loop s els) [] = (s3, r)"
    by (cases "each_validator env els (validators env) (before_loop s els) []")
  have "r = Ret errs"
    using each_validator_snd_cong[of "before_loop s els" s env els "validators env" "[]"] e assms(1)
    by (simp add: before_loop_simps)
  moreover obtain l where l: "s3 = (before_loop s els)\<lparr>log := log s @ l\<rparr>"
    using each_validator_state[OF e] by (auto simp: before_loop_simps)
  ultimately show ?thesis
    using assms(2) unfolding runValidators_unfold e
    by (intro exI[of _ l]) (auto simp: resolve_def l before_loop_simps)
qed


lemma jq_deferred_log [simp]: "jq_deferred (s\<lparr>log := x\<rparr>) els = jq_deferred s els"
  by (simp add: jq_deferred_def first_data_def split: list.splits)

lemma reject_log: "reject p (s\<lparr>log := x\<rparr>) = (reject p s)\<lparr>log := x\<rparr>"
  by (simp add: reject_def)

lemma before_loop_log: "before_loop (s\<lparr>log := x\<rparr>) els = (before_loop s els)\<lparr>log := x\<rparr>"
  by (cases "jq_deferred s els") (simp_all add: before_loop_def Let_def reject_log)

text \<open>A pass that is not cancelled and whose loop ends with errors, or for a field
  without a value or a remote check, calls the callback of \<open>validateInput\<close> at once.\<close>

lemma validateInput_sync:
  assumes nv: "\<not> veto env s (hd_opt (field_set s el))"
      and lp: "snd (each_validator env (field_set s el) (validators env) s []) = Ret errs"
      and nr: "\<not> (errs = [] \<and> truthy (getValue s (field_set s el)) \<and> truthy (jq_data s (field_set s el) ''remote''))"
  shows "\<exists>l. validateInput env el de s =
           (case validated env (field_set s el) de (jq_errors s el) errs
                   ((before_loop s (field_set s el))\<lparr>log := log s @ EvValidate (hd_opt (field_set s el)) # l,
                       deferreds := (deferreds (before_loop s (field_set s el)))
                          [length (deferreds s) := \<lparr>status = Resolved errs, callbacks = []\<rparr>]\<rparr>) of
              (s5, Threw) \<Rightarrow> (s5, Threw)
            | (s5, Ret _) \<Rightarrow> (s5, Ret (Some (length (deferreds s)))))"
proof -
  define els where "els = field_set s el"
  define s1 where "s1 = s\<lparr>log := log s @ [EvValidate (hd_opt els)]\<rparr>"
  have el1: "elements s1 = elements s" by (simp add: s1_def)
  have lp1: "snd (each_validator env els (validators env) s1 []) = Ret errs"
    using lp each_validator_snd_cong[OF el1] by (simp add: els_def)
  have nr1: "\<not> (errs = [] \<and> truthy (getValue s1 els) \<and> truthy (jq_data s1 els ''remote''))"
    using nr by (simp add: getValue_cong[OF el1] jq_data_cong[OF el1] els_def)
  from runValidators_sync[OF lp1 nr1] obtain l where
    rv: "runValidators env els s1 =
           ((before_loop s1 els)\<lparr>log := log s1 @ l,
               deferreds := (deferreds (before_loop s1 els))[length (deferreds s1) := \<lparr>status = Resolved errs, callbacks = []\<rparr>]\<rparr>,
            Ret (length (deferreds s1)))" by blast
  let ?S = "(before_loop s els)\<lparr>log := log s @ EvValidate (hd_opt els) # l,
               deferreds := (deferreds (before_loop s els))[length (deferreds s) := \<lparr>status = Resolved errs, callbacks = []\<rparr>]\<rparr>"
  have S: "(before_loop s1 els)\<lparr>log := log s1 @ l,
               deferreds := (deferreds (before_loop s1 els))[length (deferreds s1) := \<lparr>status = Resolved errs, callbacks = []\<rparr>]\<rparr> = ?S"
    by (simp add: s1_def before_loop_log)
  have d: "length (deferreds s1) = length (deferreds s)" by (simp add: s1_def)
  have rv': "runValidators env els s1 = (?S, Ret (length (deferreds s)))"
    using rv S d by simp
  have pd: "promise_done env (length (deferreds s)) c ?S = run_continuations env [c] errs ?S" for c
    by (simp add: promise_done_def before_loop_simps)
  have vi: "validateInput env el de s =
      (case run_continuations env [Validated els de (jq_errors s el)] errs ?S of
         (s3, Threw) \<Rightarrow> (s3, Threw)
       | (s3, Ret _) \<Rightarrow> (s3, Ret (Some (length (deferreds s)))))"
    using nv unfolding validateInput_def Let_def els_def[symmetric] s1_def[symmetric] rv'
    by (simp add: pd)
  show ?thesis
    unfolding vi els_def[symmetric]
    by (intro exI[of _ l]) (simp split: prod.splits completion.splits)
qed

lemma map_errors_showErrors: "store (fst (showErrors env els s)) = store s"
  by (simp add: showErrors_def Let_def split: option.splits list.splits)

lemma store_clearErrors: "store (clearErrors env els s) = store s"
  by (simp add: clearErrors_def Let_def split: option.splits list.splits)

lemma map_errors_defer_call: "map errors (store (fst (defer_call env els cb s))) = map errors (store s)"
  by (cases cb)
     (simp_all add: defer_call_def Let_def map_errors_showErrors remote_check_def clearTimeout_def
        map_update_at split: option.splits)

lemma map_errors_validated:
  "map errors (store (fst (validated env els de prev errs s))) =
     map errors (update_at els (\<lambda>e. e\<lparr>errors := Some errs\<rparr>) (store s))"
proof -
  let ?s1 = "s\<lparr>store := update_at els (\<lambda>e. e\<lparr>errors := Some errs\<rparr>) (store s)\<rparr>"
  define p where "p = (if errs \<noteq> []
            then (if de then defer_call env els (ShowErrors els) ?s1 else showErrors env els ?s1)
            else (clearErrors env els ?s1, Ret ()))"
  have a: "map errors (store (fst p)) = map errors (store ?s1)"
    by (simp add: p_def map_errors_defer_call map_errors_showErrors store_clearErrors)
  have b: "store (fst (validated env els de prev errs s)) = store (fst p)"
    unfolding validated_def Let_def p_def[symmetric]
    by (cases p; cases "snd p") (auto simp: toggleSubmit_def split: option.splits)
  show ?thesis using a b by simp
qed





lemma errors_after_validated:
  assumes "i \<in> set els" "i < length (store s)"
  shows "errors (store (fst (validated env els de prev errs s)) ! i) = Some errs"
proof -
  have l: "length (store (fst (validated env els de prev errs s))) = length (store s)"
    using arg_cong[OF map_errors_validated[of env els de prev errs s], of length] by simp
  have "errors (store (fst (validated env els de prev errs s)) ! i) =
        map errors (store (fst (validated env els de prev errs s))) ! i"
    using assms(2) l by simp
  also have "\<dots> = map errors (update_at els (\<lambda>e. e\<lparr>errors := Some errs\<rparr>) (store s)) ! i"
    by (simp only: map_errors_validated)
  also have "\<dots> = Some errs" using assms by (simp add: nth_update_at)
  finally show ?thesis .
qed

lemma each_validator_throws:
  assumes "applies s els key" "call_validator env v s els = Threw"
  shows "\<exists>l. each_validator env els (vs1 @ (key, v) # vs2) s errs = (s\<lparr>log := log s @ l\<rparr>, Threw) \<and>
             set l \<subseteq> (\<lambda>k. Ran k els) ` fst ` set (vs1 @ [(key, v)])"
  using assms
proof (induction vs1 arbitrary: s errs)
  case Nil
  then show ?case by (intro exI[of _ "[Ran key els]"]) simp
next
  case (Cons kv vs1)
  obtain k1 v1 where kv: "kv = (k1, v1)" by (cases kv)
  show ?case
  proof (cases "applies s els k1")
    case False
    from Cons.IH[OF Cons.prems, of errs] obtain l where
      "each_validator env els (vs1 @ (key, v) # vs2) s errs = (s\<lparr>log := log s @ l\<rparr>, Threw)"
      "set l \<subseteq> (\<lambda>k. Ran k els) ` fst ` set (vs1 @ [(key, v)])" by blast
    then show ?thesis using False by (intro exI[of _ l]) (auto simp: kv)
  next
    case True
    let ?s1 = "s\<lparr>log := log s @ [Ran k1 els]\<rparr>"
    have el: "elements ?s1 = elements s" by simp
    have a1: "applies ?s1 els key" using Cons.prems(1) by (simp add: applies_cong[OF el])
    have c1: "call_validator env v ?s1 els = Threw" using Cons.prems(2) by (simp add: call_validator_cong[OF el])
    have rec: "\<exists>l. each_validator env els (vs1 @ (key, v) # vs2) ?s1 e = (s\<lparr>log := log s @ Ran k1 els # l\<rparr>, Threw) \<and>
             set l \<subseteq> (\<lambda>k. Ran k els) ` fst ` set (vs1 @ [(key, v)])" for e
      using Cons.IH[OF a1 c1, of e] by simp
    show ?thesis
    proof (cases "call_validator env v1 s els")
      case Threw
      then show ?thesis using True by (intro exI[of _ "[Ran k1 els]"]) (simp add: kv)
    next
      case (Ret x)
      show ?thesis
      proof (cases "truthy x \<and> getErrorMessage s els k1 = Threw")
        case True
        then show ?thesis using \<open>applies s els k1\<close> Ret
          by (intro exI[of _ "[Ran k1 els]"]) (simp add: kv)
      next
        case False
        have "\<exists>e. each_validator env els ((kv # vs1) @ (key, v) # vs2) s errs =
                     each_validator env els (vs1 @ (key, v) # vs2) ?s1 e"
        proof (cases "truthy x")
          case False
          then show ?thesis using \<open>applies s els k1\<close> Ret by (intro exI[of _ errs]) (simp add: kv)
        next
          case True
          with False obtain m where m: "getErrorMessage s els k1 = Ret m"
            by (cases "getErrorMessage s els k1") auto
          show ?thesis using \<open>applies s els k1\<close> Ret True m
            by (intro exI[of _ "if js_or m x \<in> set errs then errs else errs @ [js_or m x]"])
               (simp add: kv Let_def)
        qed
        then obtain e where e: "each_validator env els ((kv # vs1) @ (key, v) # vs2) s errs =
                     each_validator env els (vs1 @ (key, v) # vs2) ?s1 e" by blast
        from rec[of e] obtain l where l:
          "each_validator env els (vs1 @ (key, v) # vs2) ?s1 e = (s\<lparr>log := log s @ Ran k1 els # l\<rparr>, Threw)"
          "set l \<subseteq> (\<lambda>k. Ran k els) ` fst ` set (vs1 @ [(key, v)])" by blast
        show ?thesis using l unfolding e
          by (intro exI[of _ "Ran k1 els # l"]) (auto simp: kv)
      qed
    qed
  qed
qed

lemma each_validator_mono:
  "each_validator env els vs s errs0 = (s', Ret errs) \<Longrightarrow> set errs0 \<subseteq> set errs"
proof (induction vs arbitrary: s errs0)
  case Nil
  then show ?case by simp
next
  case (Cons kv vs)
  obtain k v where kv: "kv = (k, v)" by (cases kv)
  from Cons.prems have "\<exists>s1 e1. each_validator env els vs s1 e1 = (s', Ret errs) \<and> set errs0 \<subseteq> set e1"
    by (fastforce simp: kv Let_def split: if_splits completion.splits)
  with Cons.IH show ?case by blast
qed

text \<open>A validator that applies and returns an error puts its message into the list.\<close>

lemma each_validator_reports:
  assumes "(key, v) \<in> set vs" "applies s els key" "call_validator env v s els = Ret x" "truthy x"
      and "each_validator env els vs s errs0 = (s', Ret errs)"
  shows "\<exists>m. getErrorMessage s els key = Ret m \<and> js_or m x \<in> set errs"
  using assms
proof (induction vs arbitrary: s errs0)
  case Nil
  then show ?case by simp
next
  case (Cons kv vs)
  obtain k1 v1 where kv: "kv = (k1, v1)" by (cases kv)
  show ?case
  proof (cases "kv = (key, v)")
    case True
    from Cons.prems(5) obtain m s1 where m: "getErrorMessage s els key = Ret m"
      and r: "each_validator env els vs s1 (if js_or m x \<in> set errs0 then errs0 else errs0 @ [js_or m x]) = (s', Ret errs)"
      using Cons.prems(2,3,4) unfolding True
      by (auto simp: Let_def split: completion.splits)
    from each_validator_mono[OF r] have "js_or m x \<in> set errs" by (auto split: if_splits)
    with m show ?thesis by blast
  next
    case False
    then have mem: "(key, v) \<in> set vs" using Cons.prems(1) by simp
    from Cons.prems(5) obtain s1 e1 where r: "each_validator env els vs s1 e1 = (s', Ret errs)"
      and el: "elements s1 = elements s"
      by (auto simp: kv Let_def split: if_splits completion.splits)
    have "\<exists>m. getErrorMessage s1 els key = Ret m \<and> js_or m x \<in> set errs"
      using Cons.IH[OF mem _ _ Cons.prems(4) r] Cons.prems(2,3)
      by (simp add: applies_cong[OF el] call_validator_cong[OF el])
    then show ?thesis by (simp add: getErrorMessage_cong[OF el])
  qed
qed

text \<open>Validators that do not apply, or return no error, can be left out of the loop.\<close>

lemma each_validator_skip:
  assumes "\<forall>(k, v) \<in> set vs. P k \<longrightarrow> \<not> applies s els k \<or> (\<exists>x. call_validator env v s els = Ret x \<and> \<not> truthy x)"
  shows "snd (each_validator env els vs s errs) = snd (each_validator env els (filter (\<lambda>(k, v). \<not> P k) vs) s errs)"
  using assms
proof (induction vs arbitrary: s errs)
  case Nil
  show ?case by simp
next
  case (Cons kv vs)
  obtain k v where kv: "kv = (k, v)" by (cases kv)
  let ?s1 = "s\<lparr>log := log s @ [Ran k els]\<rparr>"
  have el: "elements ?s1 = elements s" by simp
  have rest: "\<forall>(k, v) \<in> set vs. P k \<longrightarrow> \<not> applies s els k \<or> (\<exists>x. call_validator env v s els = Ret x \<and> \<not> truthy x)"
    using Cons.prems by simp
  have rest1: "\<forall>(k, v) \<in> set vs. P k \<longrightarrow> \<not> applies ?s1 els k \<or> (\<exists>x. call_validator env v ?s1 els = Ret x \<and> \<not> truthy x)"
    using rest by (simp add: applies_cong[OF el] call_validator_cong[OF el])
  have ih: "snd (each_validator env els vs s e) = snd (each_validator env els (filter (\<lambda>(k, v). \<not> P k) vs) s e)" for e
    by (rule Cons.IH[OF rest])
  have ih1: "snd (each_validator env els vs ?s1 e) = snd (each_validator env els (filter (\<lambda>(k, v). \<not> P k) vs) ?s1 e)" for e
    by (rule Cons.IH[OF rest1])
  have sw: "snd (each_validator env els vs ?s1 e) = snd (each_validator env els vs s e)" for e
    by (rule each_validator_snd_cong[OF el])
  show ?case
  proof (cases "P k")
    case False
    then show ?thesis
      by (simp add: kv Let_def ih ih1 split: completion.splits)
  next
    case True
    with Cons.prems have "\<not> applies s els k \<or> (\<exists>x. call_validator env v s els = Ret x \<and> \<not> truthy x)"
      by (simp add: kv)
    then show ?thesis using True
      by (auto simp: kv Let_def ih sw)
  qed
qed

text \<open>What a pass stores when it is not cancelled and calls its callback at once.\<close>

lemma validateInput_stores:
  assumes nv: "\<not> veto env s (hd_opt (field_set s el))"
      and lp: "snd (each_validator env (field_set s el) (validators env) s []) = Ret errs"
      and nr: "\<not> (errs = [] \<and> truthy (getValue s (field_set s el)) \<and> truthy (jq_data s (field_set s el) ''remote''))"
      and i: "i \<in> set (field_set s el)" "i < length (store s)"
  shows "errors (store (fst (validateInput env el de s)) ! i) = Some errs"
proof -
  from validateInput_sync[OF nv lp nr, of de] obtain l where
    vi: "validateInput env el de s =
           (case validated env (field_set s el) de (jq_errors s el) errs
                   ((before_loop s (field_set s el))\<lparr>log := log s @ EvValidate (hd_opt (field_set s el)) # l,
                       deferreds := (deferreds (before_loop s (field_set s el)))
                          [length (deferreds s) := \<lparr>status = Resolved errs, callbacks = []\<rparr>]\<rparr>) of
              (s5, Threw) \<Rightarrow> (s5, Threw)
            | (s5, Ret _) \<Rightarrow> (s5, Ret (Some (length (deferreds s)))))" by blast
  show ?thesis unfolding vi fst_case_completion
    by (rule errors_after_validated) (simp_all add: i before_loop_simps)
qed

lemma validateInput_notifies_first:
  "\<exists>l. log (fst (validateInput env el deferErrors s)) = log s @ EvValidate (hd_opt (field_set s el)) # l"
proof -
  define els where "els = field_set s el"
  define s1 where "s1 = s\<lparr>log := log s @ [EvValidate (hd_opt els)]\<rparr>"
  have *: "\<exists>l. log s3 = log s @ EvValidate (hd_opt els) # l" if "frame (\<lambda>k t. True) s1 s3" for s3
    using that by (auto simp: frame_def s1_def)
  have "\<exists>l. log (fst (validateInput env el deferErrors s)) = log s @ EvValidate (hd_opt els) # l"
  proof (cases "veto env s (hd_opt els)")
    case True
    then show ?thesis by (simp add: validateInput_def Let_def els_def[symmetric])
  next
    case False
    obtain s2 r where rv: "runValidators env els s1 = (s2, r)" by (cases "runValidators env els s1")
    have f2: "frame (\<lambda>k t. True) s1 s2"
      using frame_mono[OF frame_runValidators[of els env s1]] rv by simp
    show ?thesis
    proof (cases r)
      case Threw
      then show ?thesis using False *[OF f2]
        by (simp add: validateInput_def Let_def els_def[symmetric] s1_def[symmetric] rv)
    next
      case (Ret d)
      obtain s3 r3 where pd: "promise_done env d (Validated els deferErrors (jq_errors s el)) s2 = (s3, r3)"
        by (cases "promise_done env d (Validated els deferErrors (jq_errors s el)) s2")
      have f3: "frame (\<lambda>k t. True) s2 s3"
        using frame_promise_done[of _ s2 env d "Validated els deferErrors (jq_errors s el)"] pd by simp
      from *[OF frame_trans[OF f2 f3]] show ?thesis using False Ret
        by (cases r3) (simp_all add: validateInput_def Let_def els_def[symmetric] s1_def[symmetric] rv pd)
    qed
  qed
  then show ?thesis unfolding els_def .
qed

lemma onInput_notifies_first:
  "t \<in> set (inputs s) \<Longrightarrow>
     \<exists>l. log (fst (onInput env ev t s)) = log s @ EvValidate (hd_opt (field_set s [t])) # l"
proof -
  assume t: "t \<in> set (inputs s)"
  obtain s1 r where v: "validateInput env [t] (ev \<noteq> Focusout) s = (s1, r)"
    by (cases "validateInput env [t] (ev \<noteq> Focusout) s")
  from validateInput_notifies_first[of env "[t]" "ev \<noteq> Focusout" s] v
  obtain l where l: "log s1 = log s @ EvValidate (hd_opt (field_set s [t])) # l" by auto
  have "\<exists>l'. log (fst (onInput env ev t s)) = log s1 @ l'"
  proof (cases r)
    case Threw
    then show ?thesis using t by (simp add: onInput_def v)
  next
    case (Ret x)
    show ?thesis
    proof (cases x)
      case None
      then show ?thesis using t Ret by (simp add: onInput_def v)
    next
      case (Some d)
      from frame_log[OF frame_promise_done[of "\<lambda>k t. True" s1 env d Toggle]]
      show ?thesis using t Ret Some by (auto simp: onInput_def v)
    qed
  qed
  then show ?thesis using l by auto
qed

lemma for_in_names: "\<forall>kv \<in> set kvs. array_index (fst kv) = None \<Longrightarrow> for_in kvs = kvs"
proof -
  assume a: "\<forall>kv \<in> set kvs. array_index (fst kv) = None"
  then have "filter (\<lambda>kv. array_index (fst kv) \<noteq> None) kvs = []" by (simp add: filter_empty_conv)
  moreover have "filter (\<lambda>kv. array_index (fst kv) = None) kvs = kvs" using a by (simp add: filter_id_conv)
  ultimately show ?thesis by (simp add: for_in_def)
qed

lemma array_index_VALIDATORS: "\<forall>kv \<in> set VALIDATORS. array_index (fst kv) = None"
proof -
  have "array_index ''native'' = None" "array_index ''match'' = None" "array_index ''minlength'' = None"
    by code_simp+
  then show ?thesis by (simp add: VALIDATORS_def)
qed

lemma extend_Nil: "extend VALIDATORS [] = VALIDATORS"
  by (simp add: extend_def for_in_names array_index_VALIDATORS)

lemma js_less_Num: "js_less n (Num m) = (int n < m)"
proof -
  have "(of_nat n < (of_int m :: rat)) = (int n < m)"
    by (metis of_int_less_iff of_int_of_nat_eq)
  then show ?thesis by (simp add: js_less_def)
qed

lemma getValue_radio:
  assumes "i < length (elements s)" "etype (elements s ! i) = Radio"
  shows "getValue s [i] =
           Bool (\<exists>e \<in> set (elements s). name e = Some (name_string (jq_name s [i])) \<and> is_checked e)"
proof -
  have "(checked_named s n \<noteq> []) = (\<exists>e \<in> set (elements s). name e = Some n \<and> is_checked e)" for n
  proof -
    have "(\<exists>x \<in> {0..<length (elements s)}. name (elements s ! x) = Some n \<and> is_checked (elements s ! x)) =
          (\<exists>e \<in> set (elements s). name e = Some n \<and> is_checked e)"
    proof
      assume "\<exists>x \<in> {0..<length (elements s)}. name (elements s ! x) = Some n \<and> is_checked (elements s ! x)"
      then obtain x where "x < length (elements s)" "name (elements s ! x) = Some n" "is_checked (elements s ! x)"
        by auto
      then show "\<exists>e \<in> set (elements s). name e = Some n \<and> is_checked e"
        using nth_mem by blast
    next
      assume "\<exists>e \<in> set (elements s). name e = Some n \<and> is_checked e"
      then obtain e where "e \<in> set (elements s)" "name e = Some n" "is_checked e" by blast
      then obtain x where "x < length (elements s)" "elements s ! x = e"
        by (auto simp: in_set_conv_nth)
      then show "\<exists>x \<in> {0..<length (elements s)}. name (elements s ! x) = Some n \<and> is_checked (elements s ! x)"
        using \<open>name e = Some n\<close> \<open>is_checked e\<close> by auto
    qed
    then show ?thesis unfolding checked_named_def filter_empty_conv by simp
  qed
  then show ?thesis using assms by (simp add: getValue_def jq_is_def)
qed

text \<open>\<open>showErrors\<close> and \<open>clearErrors\<close> keep the blocks in order when the groups of the
  field hold at most one error block.\<close>

lemma blocks_ok_showErrors:
  assumes "blocks_ok orig s" "length (find_blocks s (closest s els)) \<le> 1"
  shows "blocks_ok orig (fst (showErrors env els s))"
proof (cases "find_blocks s (closest s els)")
  case Nil
  then show ?thesis using assms(1)
    by (simp add: showErrors_def Let_def blocks_ok_def split: option.splits)
next
  case (Cons b bs)
  then have bs: "bs = []" using assms(2) by simp
  have "b \<in> set (find_blocks s (closest s els))" using Cons by simp
  then have b: "b < length (blocks s)" by (simp add: find_blocks_def)
  show ?thesis using assms(1) b
    by (auto simp: showErrors_def Let_def blocks_ok_def block_ok_def Cons bs nth_update_at
        list_all2_conv_all_nth split: option.splits)
qed

lemma blocks_ok_clearErrors:
  assumes "blocks_ok orig s" "length (find_blocks s (closest s els)) \<le> 1"
  shows "blocks_ok orig (clearErrors env els s)"
proof (cases "find_blocks s (closest s els)")
  case Nil
  then show ?thesis using assms(1)
    by (simp add: clearErrors_def Let_def blocks_ok_def split: option.splits)
next
  case (Cons b bs)
  then have bs: "bs = []" using assms(2) by simp
  have "b \<in> set (find_blocks s (closest s els))" using Cons by simp
  then have b: "b < length (blocks s)" by (simp add: find_blocks_def)
  show ?thesis using assms(1) b
    by (auto simp: clearErrors_def Let_def blocks_ok_def block_ok_def Cons bs nth_update_at
        list_all2_conv_all_nth split: option.splits)
qed

lemma fold_clearTimeout:
  "fold (\<lambda>i. clearTimeout (f i)) is s =
     s\<lparr>timers := filter (\<lambda>(t, c). \<forall>i \<in> set is. f i \<noteq> Some t) (timers s)\<rparr>"
proof (induction "is" arbitrary: s)
  case Nil
  show ?case by simp
next
  case (Cons i "is")
  have "fold (\<lambda>i. clearTimeout (f i)) (i # is) s = fold (\<lambda>i. clearTimeout (f i)) is (clearTimeout (f i) s)"
    by simp
  also have "\<dots> = (clearTimeout (f i) s)\<lparr>timers :=
      filter (\<lambda>(t, c). \<forall>i \<in> set is. f i \<noteq> Some t) (timers (clearTimeout (f i) s))\<rparr>"
    by (rule Cons)
  also have "\<dots> = s\<lparr>timers := filter (\<lambda>(t, c). \<forall>i \<in> set (i # is). f i \<noteq> Some t) (timers s)\<rparr>"
  proof (cases "f i")
    case None
    then show ?thesis by (simp add: clearTimeout_def)
  next
    case (Some a)
    have fe: "filter (\<lambda>x. (case x of (i, c) \<Rightarrow> i \<noteq> a) \<and> (case x of (t, c) \<Rightarrow> \<forall>i\<in>set is. f i \<noteq> Some t)) (timers s) =
          filter (\<lambda>(t, c). a \<noteq> t \<and> (\<forall>i\<in>set is. f i \<noteq> Some t)) (timers s)"
      by (rule filter_cong) auto
    show ?thesis using Some by (simp add: clearTimeout_def fe)
  qed
  finally show ?case .
qed


lemma timers_reset:
  "timers (reset env s) =
     filter (\<lambda>(t, c). \<forall>i \<in> set (inputs s).
                jq_timeout (s\<lparr>store := update_at (inputs s) (\<lambda>e. e\<lparr>errors := None, deferred := None\<rparr>) (store s)\<rparr>) [i] \<noteq> Some t)
       (timers s)"
  by (simp add: reset_def Let_def fold_clearTimeout jq_timeout_def first_data_def)

lemma store_reset:
  "store (reset env s) = update_at (inputs s) (\<lambda>e. e\<lparr>errors := None, deferred := None\<rparr>) (store s)"
  by (simp add: reset_def Let_def fold_clearTimeout)

text \<open>Resolving a deferred that is not pending does nothing.\<close>

lemma resolve_settled:
  "\<not> (d < length (deferreds s) \<and> status (deferreds s ! d) = Pending) \<Longrightarrow> resolve env d errs s = (s, Ret ())"
  by (auto simp: resolve_def)

lemma deferreds_showErrors: "deferreds (fst (showErrors env els s)) = deferreds s"
  by (simp add: showErrors_def Let_def split: option.splits list.splits)

lemma deferreds_defer_call: "deferreds (fst (defer_call env els cb s)) = deferreds s"
  by (cases cb)
     (simp_all add: defer_call_def Let_def deferreds_showErrors remote_check_def clearTimeout_def
        split: option.splits)

text \<open>\<open>runValidators\<close> leaves the deferred that was stored on the field not pending, so
  that the check it belonged to is superseded.\<close>

lemma runValidators_supersedes:
  assumes "jq_deferred s els = Some p" "p < length (deferreds s)"
  shows "status (deferreds (fst (runValidators env els s)) ! p) \<noteq> Pending"
proof -
  obtain s3 r where e: "each_validator env els (validators env) (before_loop s els) [] = (s3, r)"
    by (cases "each_validator env els (validators env) (before_loop s els) []")
  from each_validator_state[OF e] obtain l where s3: "s3 = (before_loop s els)\<lparr>log := log (before_loop s els) @ l\<rparr>"
    by blast
  have d3: "deferreds s3 = deferreds (reject p s) @ [\<lparr>status = Pending, callbacks = []\<rparr>]"
    using assms(1) by (simp add: s3 before_loop_def Let_def)
  have np: "status (deferreds s3 ! p) \<noteq> Pending"
    using assms(2) by (auto simp: d3 nth_append reject_def)
  have l3: "length (deferreds s3) = Suc (length (deferreds s))" by (simp add: d3)
  show ?thesis
  proof (cases r)
    case Threw
    then show ?thesis using np by (simp add: runValidators_unfold e)
  next
    case (Ret errs)
    show ?thesis
    proof (cases "errs = [] \<and> truthy (getValue s els) \<and> truthy (jq_data s els ''remote'')")
      case True
      have "fst (runValidators env els s) = fst (defer_call env els (RemoteCheck els (length (deferreds s))) s3)"
        using True Ret by (simp add: runValidators_unfold e fst_case_completion)
      then show ?thesis using np by (simp add: deferreds_defer_call)
    next
      case False
      have rs: "resolve env (length (deferreds s)) errs s3 =
          (s3\<lparr>deferreds := (deferreds s3)[length (deferreds s) := \<lparr>status = Resolved errs, callbacks = []\<rparr>]\<rparr>, Ret ())"
        using assms(2) by (simp add: resolve_def d3 nth_append)
      have "fst (runValidators env els s) =
          s3\<lparr>deferreds := (deferreds s3)[length (deferreds s) := \<lparr>status = Resolved errs, callbacks = []\<rparr>]\<rparr>"
        using False Ret by (auto simp: runValidators_unfold e rs)
      then show ?thesis using np assms(2) by (simp add: nth_list_update)
    qed
  qed
qed

lemma narrow_frame:
  assumes "frame R s s'"
  shows "narrow s' els = narrow s els"
proof -
  from assms have e: "elements s' = elements s" and g: "map g_blocks (groups s') = map g_blocks (groups s)"
    and b: "length (blocks s') = length (blocks s)"
    by (simp_all add: frame_def)
  from g have lg: "length (groups s') = length (groups s)" by (metis length_map)
  have c: "closest s' els = closest s els" by (simp add: closest_def e lg)
  have gb: "g_blocks (groups s' ! x) = g_blocks (groups s ! x)" if "x < length (groups s)" for x
    using that g lg by (metis nth_map)
  have "find_blocks s' (closest s els) = find_blocks s (closest s els)"
    unfolding find_blocks_def b
    by (rule filter_cong) (auto simp: closest_def gb)
  then show ?thesis by (simp add: narrow_def c)
qed

lemma blocks_ok_cong: "blocks s' = blocks s \<Longrightarrow> blocks_ok orig s' = blocks_ok orig s"
  by (simp add: blocks_ok_def)

lemma narrow_cong:
  "elements s' = elements s \<Longrightarrow> groups s' = groups s \<Longrightarrow> blocks s' = blocks s \<Longrightarrow> narrow s' els = narrow s els"
  by (simp add: narrow_def find_blocks_def closest_def)

lemma blocks_ok_run_callback:
  assumes "blocks_ok orig s" "\<And>els. cb = ShowErrors els \<Longrightarrow> narrow s els"
  shows "blocks_ok orig (fst (run_callback env cb s))"
proof (cases cb)
  case (ShowErrors els)
  then show ?thesis using assms blocks_ok_showErrors[of orig s els env] by (simp add: narrow_def)
next
  case (RemoteCheck els d)
  then show ?thesis using assms(1) by (simp add: remote_check_def blocks_ok_def)
qed

lemma blocks_ok_defer_call:
  assumes "blocks_ok orig s" "\<And>els. cb = ShowErrors els \<Longrightarrow> narrow s els"
  shows "blocks_ok orig (fst (defer_call env els' cb s))"
proof (cases "delay (opts env) = 0")
  case True
  then show ?thesis using blocks_ok_run_callback[OF assms] by (simp add: defer_call_def)
next
  case False
  then show ?thesis using assms(1)
    by (simp add: defer_call_def Let_def blocks_ok_def clearTimeout_def split: option.splits)
qed

lemma blocks_ok_validated:
  assumes "blocks_ok orig s" "narrow s els"
  shows "blocks_ok orig (fst (validated env els de prev errs s))"
proof -
  let ?s1 = "s\<lparr>store := update_at els (\<lambda>e. e\<lparr>errors := Some errs\<rparr>) (store s)\<rparr>"
  have o1: "blocks_ok orig ?s1" using assms(1) by (simp add: blocks_ok_def)
  have n1: "narrow ?s1 els" using assms(2) by (simp add: narrow_cong[of ?s1 s])
  define p where "p = (if errs \<noteq> []
            then (if de then defer_call env els (ShowErrors els) ?s1 else showErrors env els ?s1)
            else (clearErrors env els ?s1, Ret ()))"
  have n1': "length (find_blocks ?s1 (closest ?s1 els)) \<le> 1" using n1 by (simp add: narrow_def)
  have o2: "blocks_ok orig (fst p)"
  proof (cases "errs = []")
    case True
    then show ?thesis using blocks_ok_clearErrors[OF o1 n1', of env] by (simp add: p_def)
  next
    case False
    show ?thesis
    proof (cases de)
      case True
      have "blocks_ok orig (fst (defer_call env els (ShowErrors els) ?s1))"
        by (rule blocks_ok_defer_call[OF o1]) (use n1 in auto)
      then show ?thesis using False True by (simp add: p_def)
    next
      case de: False
      then show ?thesis using False blocks_ok_showErrors[OF o1 n1', of env] by (simp add: p_def)
    qed
  qed
  have b: "blocks (fst (validated env els de prev errs s)) = blocks (fst p)"
    unfolding validated_def Let_def p_def[symmetric]
    by (cases p; cases "snd p") (auto simp: toggleSubmit_def split: option.splits)
  show ?thesis using o2 by (simp add: blocks_ok_cong[OF b])
qed

lemma blocks_ok_run_continuations:
  assumes "blocks_ok orig s" "\<And>els de prev. Validated els de prev \<in> set cs \<Longrightarrow> narrow s els"
  shows "blocks_ok orig (fst (run_continuations env cs errs s))"
  using assms
proof (induction cs arbitrary: s)
  case Nil
  then show ?case by simp
next
  case (Cons c cs)
  show ?case
  proof (cases c)
    case (Validated els de prev)
    obtain s1 r where v: "validated env els de prev errs s = (s1, r)" by (cases "validated env els de prev errs s")
    have n: "narrow s els" using Cons.prems(2)[of els de prev] Validated by simp
    have o1: "blocks_ok orig s1" using blocks_ok_validated[OF Cons.prems(1) n, of env de prev errs] v by simp
    have f: "frame (\<lambda>k t. True) s s1" using frame_validated[of "\<lambda>k t. True" s env els de prev errs] v by simp
    have n1: "narrow s1 els'" if "Validated els' de' prev' \<in> set cs" for els' de' prev'
      using Cons.prems(2)[of els' de' prev'] that by (simp add: narrow_frame[OF f])
    show ?thesis using o1 Cons.IH[OF o1 n1]
      by (cases r) (simp_all add: Validated v)
  next
    case Toggle
    have o1: "blocks_ok orig (toggleSubmit env s)" using Cons.prems(1) by (simp add: toggleSubmit_def blocks_ok_def)
    have n1: "narrow (toggleSubmit env s) els'" if "Validated els' de' prev' \<in> set cs" for els' de' prev'
      using Cons.prems(2)[of els' de' prev'] that by (simp add: narrow_frame[OF frame_toggleSubmit[of "\<lambda>k t. True"]])
    show ?thesis using Cons.IH[OF o1 n1] by (simp add: Toggle)
  qed
qed

lemma blocks_ok_resolve:
  assumes "blocks_ok orig s"
    "\<And>els de prev. d < length (deferreds s) \<Longrightarrow> Validated els de prev \<in> set (callbacks (deferreds s ! d)) \<Longrightarrow> narrow s els"
  shows "blocks_ok orig (fst (resolve env d errs s))"
proof (cases "d < length (deferreds s) \<and> status (deferreds s ! d) = Pending")
  case True
  let ?s1 = "s\<lparr>deferreds := (deferreds s)[d := \<lparr>status = Resolved errs, callbacks = []\<rparr>]\<rparr>"
  have o1: "blocks_ok orig ?s1" using assms(1) by (simp add: blocks_ok_def)
  have n1: "narrow ?s1 els" if "Validated els de prev \<in> set (callbacks (deferreds s ! d))" for els de prev
    using assms(2)[of els de prev] that True by (simp add: narrow_cong[of ?s1 s])
  have "blocks_ok orig (fst (run_continuations env (callbacks (deferreds s ! d)) errs ?s1))"
    by (rule blocks_ok_run_continuations[OF o1]) (use n1 in blast)
  then show ?thesis using True by (simp add: resolve_def)
next
  case False
  then show ?thesis using assms(1) by (auto simp: resolve_def)
qed

lemma blocks_ok_promise_done:
  assumes "blocks_ok orig s" "\<And>els de prev. c = Validated els de prev \<Longrightarrow> narrow s els"
  shows "blocks_ok orig (fst (promise_done env d c s))"
proof -
  have a: "blocks_ok orig (s\<lparr>deferreds := x\<rparr>)" for x using assms(1) by (simp add: blocks_ok_def)
  have b: "blocks_ok orig (fst (run_continuations env [c] errs s))" for errs
    by (rule blocks_ok_run_continuations[OF assms(1)]) (use assms(2) in auto)
  show ?thesis using a b assms(1)
    by (auto simp: promise_done_def split: dstatus.splits)
qed

lemma blocks_runValidators: "blocks (fst (runValidators env els s)) = blocks s"
proof -
  obtain s3 r where e: "each_validator env els (validators env) (before_loop s els) [] = (s3, r)"
    by (cases "each_validator env els (validators env) (before_loop s els) []")
  from each_validator_state[OF e] obtain l where s3: "s3 = (before_loop s els)\<lparr>log := log (before_loop s els) @ l\<rparr>"
    by blast
  have b3: "blocks s3 = blocks s" by (simp add: s3 before_loop_simps)
  have d3: "length (deferreds s3) = Suc (length (deferreds s))"
    "deferreds s3 ! length (deferreds s) = \<lparr>status = Pending, callbacks = []\<rparr>"
    by (simp_all add: s3 before_loop_simps)
  have rs: "blocks (fst (resolve env (length (deferreds s)) errs s3)) = blocks s" for errs
    using d3 b3 by (simp add: resolve_def)
  have dc: "blocks (fst (defer_call env els (RemoteCheck els d) s3)) = blocks s" for d
    using b3 by (simp add: defer_call_def Let_def remote_check_def clearTimeout_def split: option.splits)
  show ?thesis
    unfolding runValidators_unfold e
    by (cases r) (simp_all add: b3 fst_case_completion rs dc)
qed

text \<open>A pass keeps the error blocks in order when the groups of the field hold at most
  one error block.\<close>

lemma blocks_ok_validateInput:
  assumes "blocks_ok orig s" "narrow s (field_set s el)"
  shows "blocks_ok orig (fst (validateInput env el de s))"
proof -
  define els where "els = field_set s el"
  define s1 where "s1 = s\<lparr>log := log s @ [EvValidate (hd_opt els)]\<rparr>"
  have o1: "blocks_ok orig s1" using assms(1) by (simp add: s1_def blocks_ok_def)
  show ?thesis
  proof (cases "veto env s (hd_opt els)")
    case True
    then show ?thesis using o1
      by (simp add: validateInput_def Let_def els_def[symmetric] s1_def[symmetric])
  next
    case False
    obtain s2 r where rv: "runValidators env els s1 = (s2, r)" by (cases "runValidators env els s1")
    have b2: "blocks s2 = blocks s1" using blocks_runValidators[of env els s1] rv by simp
    have o2: "blocks_ok orig s2" using o1 by (simp add: blocks_ok_cong[OF b2])
    have f: "frame (\<lambda>k t. True) s s2"
    proof -
      have "frame (\<lambda>k t. True) s s1" by (simp add: s1_def frame_def)
      moreover have "frame (\<lambda>k t. True) s1 s2"
        using frame_mono[OF frame_runValidators[of els env s1]] rv by simp
      ultimately show ?thesis by (rule frame_trans)
    qed
    have n2: "narrow s2 els" using assms(2) by (simp add: narrow_frame[OF f] els_def)
    show ?thesis
    proof (cases r)
      case Threw
      then show ?thesis using False o2
        by (simp add: validateInput_def Let_def els_def[symmetric] s1_def[symmetric] rv)
    next
      case (Ret d)
      have "blocks_ok orig (fst (promise_done env d (Validated els de (jq_errors s el)) s2))"
        by (rule blocks_ok_promise_done[OF o2]) (use n2 in auto)
      then show ?thesis using False Ret
        by (simp add: validateInput_def Let_def els_def[symmetric] s1_def[symmetric] rv fst_case_completion
            split: prod.splits completion.splits)
    qed
  qed
qed

lemma passes_Nil [simp]: "passes [] = []"
  by (simp add: passes_def)

lemma passes_append [simp]: "passes (l @ l') = passes l @ passes l'"
  by (simp add: passes_def)

lemma passes_Cons [simp]: "passes (e # l) = pass_of e @ passes l"
  by (simp add: passes_def)

lemma passes_showErrors [simp]: "passes (log (fst (showErrors env els s))) = passes (log s)"
  by (simp add: showErrors_def Let_def split: option.splits list.splits)

lemma passes_clearErrors [simp]: "passes (log (clearErrors env els s)) = passes (log s)"
  by (simp add: clearErrors_def Let_def split: option.splits list.splits)

lemma passes_toggleSubmit [simp]: "passes (log (toggleSubmit env s)) = passes (log s)"
  by (simp add: toggleSubmit_def)

lemma passes_run_callback [simp]: "passes (log (fst (run_callback env cb s))) = passes (log s)"
  by (cases cb) (simp_all add: remote_check_def)

lemma passes_defer_call [simp]: "passes (log (fst (defer_call env els cb s))) = passes (log s)"
  by (simp add: defer_call_def Let_def clearTimeout_def split: option.splits)

lemma passes_validated [simp]: "passes (log (fst (validated env els de prev errs s))) = passes (log s)"
proof -
  let ?s1 = "s\<lparr>store := update_at els (\<lambda>e. e\<lparr>errors := Some errs\<rparr>) (store s)\<rparr>"
  define p where "p = (if errs \<noteq> []
            then (if de then defer_call env els (ShowErrors els) ?s1 else showErrors env els ?s1)
            else (clearErrors env els ?s1, Ret ()))"
  have f2: "passes (log (fst p)) = passes (log s)"
    by (simp add: p_def)
  have f3: "passes (log (fst (validated env els de prev errs s))) = passes (log (fst p))"
    unfolding validated_def Let_def p_def[symmetric]
    by (cases p; cases "snd p") (auto split: option.splits)
  show ?thesis using f2 f3 by simp
qed

lemma passes_run_continuations [simp]:
  "passes (log (fst (run_continuations env cs errs s))) = passes (log s)"
proof (induction cs arbitrary: s)
  case Nil
  show ?case by simp
next
  case (Cons c cs)
  show ?case
  proof (cases c)
    case (Validated els de prev)
    obtain s1 r where v: "validated env els de prev errs s = (s1, r)" by (cases "validated env els de prev errs s")
    have f1: "passes (log s1) = passes (log s)" using passes_validated[of env els de prev errs s] v by simp
    show ?thesis using f1 Cons.IH[of s1]
      by (cases r) (simp_all add: Validated v)
  next
    case Toggle
    show ?thesis using Cons.IH[of "toggleSubmit env s"] by (simp add: Toggle)
  qed
qed

lemma passes_reject [simp]: "passes (log (reject d s)) = passes (log s)"
  by (simp add: reject_def)

lemma passes_resolve [simp]: "passes (log (fst (resolve env d errs s))) = passes (log s)"
  by (simp add: resolve_def)








lemma dependents_cong: "bindings s' = bindings s \<Longrightarrow> dependents s' t = dependents s t"
  by (simp add: dependents_def)



lemma frame_bindings: "frame R s s' \<Longrightarrow> bindings s' = bindings s"
  by (simp add: frame_def)

lemma frame_inputs: "frame R s s' \<Longrightarrow> inputs s' = inputs s"
  by (simp add: frame_def)









text \<open>An exception in the handler of a dependent field (here its pass is cancelled, and
  \<open>onInput\<close> calls \<open>.done\<close> on \<open>undefined\<close>) does not keep the form from validating the
  target.\<close>

lemma input_event_after_exception:
  "map_option snd (input_event 1 cancelling_engine 0 (bound_match_form ''x'' ''y'')) = Some (Threw, Ret ()) \<and>
   map_option (\<lambda>p. passes (log (fst p))) (input_event 1 cancelling_engine 0 (bound_match_form ''x'' ''y'')) =
     Some [Some 1, Some 0] \<and>
   map_option (\<lambda>p. map errors (store (fst p))) (input_event 1 cancelling_engine 0 (bound_match_form ''x'' ''y'')) =
     Some [Some [], None]"
  by code_simp

text \<open>
  What \<open>reset\<close> does in every state: it removes the stored error list and the stored
  deferred of every field of \<open>$inputs\<close> and cancels the timer whose handle is stored on it
  (the handle itself stays on the field, and is then the handle of no pending timer); no
  group of the form is marked \<open>has-error\<close>, \<open>has-danger\<close> or \<open>has-success\<close>, no feedback
  icon has the error or the success class, and no submit control is disabled. When the
  error blocks are in order with respect to the contents the page gave them, which the
  passes of the engine keep as long as the groups of a field hold at most one error block
  (\<open>blocks_ok_validateInput\<close>), every block shows its original content again and nothing
  is saved on it.
\<close>

lemma reset_clears:
  "(blocks_ok orig s \<longrightarrow>
      blocks (reset env s) = map (\<lambda>c. \<lparr>html = c, originalContent = None\<rparr>) orig) \<and>
   (\<forall>i \<in> set (inputs s). i < length (store s) \<longrightarrow>
      errors (store (reset env s) ! i) = None \<and> deferred (store (reset env s) ! i) = None \<and>
      (\<forall>t. timeout (store (reset env s) ! i) = Some t \<longrightarrow> t \<notin> fst ` set (timers (reset env s)))) \<and>
   (\<forall>g \<in> set (groups (reset env s)). \<not> has_error g \<and> \<not> has_danger g \<and> \<not> has_success g) \<and>
   (\<forall>c \<in> set (feedbacks (reset env s)). fb_error (opts env) \<notin> set c \<and> fb_success (opts env) \<notin> set c) \<and>
   (\<forall>b \<in> set (btn (reset env s)). \<not> b) \<and>
   elements (reset env s) = elements s \<and> inputs (reset env s) = inputs s"
proof -
  have p1: "blocks (reset env s) = map (\<lambda>c. \<lparr>html = c, originalContent = None\<rparr>) orig" if "blocks_ok orig s"
  proof -
    from that have l: "length (blocks s) = length orig"
      and a: "\<forall>b < length orig. block_ok (orig ! b) (blocks s ! b)"
      by (auto simp: blocks_ok_def list_all2_conv_all_nth)
    have bl: "blocks (reset env s) =
        map (\<lambda>b. \<lparr>html = (case originalContent b of None \<Rightarrow> html b | Some c \<Rightarrow> c), originalContent = None\<rparr>) (blocks s)"
      by (simp add: reset_def Let_def fold_clearTimeout)
    show ?thesis unfolding bl using l a
      by (auto simp: list_eq_iff_nth_eq block_ok_def split: option.splits)
  qed
  have p2: "errors (store (reset env s) ! i) = None \<and> deferred (store (reset env s) ! i) = None \<and>
      (\<forall>t. timeout (store (reset env s) ! i) = Some t \<longrightarrow> t \<notin> fst ` set (timers (reset env s)))"
    if i: "i \<in> set (inputs s)" "i < length (store s)" for i
  proof -
    have st: "store (reset env s) ! i = (store s ! i)\<lparr>errors := None, deferred := None\<rparr>"
      using i by (simp add: store_reset nth_update_at)
    have jt: "jq_timeout (s\<lparr>store := update_at (inputs s) (\<lambda>e. e\<lparr>errors := None, deferred := None\<rparr>) (store s)\<rparr>) [i] =
        timeout (store s ! i)"
      using i by (simp add: jq_timeout_def first_data_def nth_update_at)
    have "t \<notin> fst ` set (timers (reset env s))" if "timeout (store s ! i) = Some t" for t
      unfolding timers_reset using that i(1) jt by auto
    then show ?thesis by (simp add: st)
  qed
  have p3: "\<forall>g \<in> set (groups (reset env s)). \<not> has_error g \<and> \<not> has_danger g \<and> \<not> has_success g"
    by (auto simp: reset_def Let_def fold_clearTimeout)
  have p4: "\<forall>c \<in> set (feedbacks (reset env s)). fb_error (opts env) \<notin> set c \<and> fb_success (opts env) \<notin> set c"
    by (auto simp: reset_def Let_def removeClass_def fold_clearTimeout)
  have p5: "\<forall>b \<in> set (btn (reset env s)). \<not> b"
    by (auto simp: reset_def Let_def fold_clearTimeout)
  have p6: "elements (reset env s) = elements s \<and> inputs (reset env s) = inputs s"
    by (simp add: reset_def Let_def fold_clearTimeout)
  show ?thesis using p1 p2 p3 p4 p5 p6 by blast
qed

text \<open>A text input is not \<open>:checked\<close>, whatever its \<open>checked\<close> property.\<close>

lemma getValue_text_checked:
  "getValue (form_of [plan_radio, text_input\<lparr>name := Some ''plan'', checked := True\<rparr>]) [0] = Bool False"
  by code_simp

text \<open>Two fields with a value that are each other's target trigger one another without
  end: no depth is enough.\<close>

lemma trigger_input_cycle:
  assumes a: "dependents s a = b # bs" and b: "dependents s b = a # as"
    and va: "truthy (getValue s [a])" and vb: "truthy (getValue s [b])"
  shows "trigger_input n env a s = None \<and> trigger_input n env b s = None"
proof (induction n)
  case 0
  show ?case by simp
next
  case (Suc n)
  have "match_handlers n env (b # bs) s = None" using Suc vb by simp
  moreover have "match_handlers n env (a # as) s = None" using Suc va by simp
  ultimately show ?case by (simp add: a b)
qed

lemma input_event_cycle:
  assumes a: "dependents s a = b # bs" and b: "dependents s b = a # as"
    and va: "truthy (getValue s [a])" and vb: "truthy (getValue s [b])"
  shows "input_event n env a s = None"
proof -
  have "match_handlers n env (b # bs) s = None"
    using trigger_input_cycle[OF b a vb va, of n env] vb by simp
  then show ?thesis by (simp add: input_event_def a)
qed

section \<open>Properties of the engine\<close>

text \<open>
  C10. When the \<open>delay\<close> option is 0, \<open>defer\<close> calls its callback at once: the result is
  that of the callback itself, no timer is created and no timer handle is stored on the
  field. Deferred error display is then \<open>showErrors\<close> itself, and the remote check sends
  its request immediately.
\<close>

theorem defer_delay_zero:
  "delay (opts env) = 0 \<Longrightarrow>
     defer_call env els callback s = run_callback env callback s \<and>
     timers (fst (defer_call env els callback s)) = timers s \<and>
     next_timer (fst (defer_call env els callback s)) = next_timer s \<and>
     map timeout (store (fst (defer_call env els callback s))) = map timeout (store s) \<and>
     defer_call env els (ShowErrors els) s = showErrors env els s \<and>
     defer_call env els (RemoteCheck els d) s = (remote_check els d s, Ret ()) \<and>
     length (requests (remote_check els d s)) = Suc (length (requests s))"
  by (cases callback)
     (simp_all add: defer_call_def remote_check_def showErrors_def Let_def split: option.splits list.splits)

theorem defer_delay_zero_witness:
  "delay (opts (engine (DEFAULTS\<lparr>delay := 0\<rparr>) [])) = 0 \<and>
   timers (fst (defer_call (engine (DEFAULTS\<lparr>delay := 0\<rparr>) []) [0] (RemoteCheck [0] 0)
     (form_of [text_input\<lparr>val := ''abc'', attrs := [(''remote'', Str ''/check'')]\<rparr>]))) = [] \<and>
   requests (fst (defer_call (engine (DEFAULTS\<lparr>delay := 0\<rparr>) []) [0] (RemoteCheck [0] 0)
     (form_of [text_input\<lparr>val := ''abc'', attrs := [(''remote'', Str ''/check'')]\<rparr>]))) =
     [\<lparr>r_els = [0], r_deferred = 0, r_url = Str ''/check'', r_name = Undefined, r_value = Str ''abc''\<rparr>]"
  using defer_delay_zero[of "engine (DEFAULTS\<lparr>delay := 0\<rparr>) []" "[0]" "RemoteCheck [0] 0"
      "form_of [text_input\<lparr>val := ''abc'', attrs := [(''remote'', Str ''/check'')]\<rparr>]" 0]
  by (simp add: engine_def DEFAULTS_def form_of_def text_input_def remote_check_def jq_data_def
      jq_name_def first_el_def getValue_def jq_is_def jq_val_def)

text \<open>
  C8. Every validation pass of a field first triggers the \<open>validate.bs.validator\<close>
  notification: it is the first thing the pass adds to the log, before any validator is
  called. When a subscriber prevents its default, the pass returns at once: nothing but
  that notification has happened, so the stored error lists, the error blocks, the group
  marks and every other part of the state are as before.
\<close>

theorem validate_cancelled:
  "(\<exists>l. log (fst (validateInput env el deferErrors s)) = log s @ EvValidate (hd_opt (field_set s el)) # l) \<and>
   (veto env s (hd_opt (field_set s el)) \<longrightarrow>
      validateInput env el deferErrors s = (s\<lparr>log := log s @ [EvValidate (hd_opt (field_set s el))]\<rparr>, Ret None))"
  using validateInput_notifies_first[of env el deferErrors s]
  by (simp add: validateInput_def Let_def)

theorem validate_cancelled_witness:
  "veto ((engine DEFAULTS [])\<lparr>veto := (\<lambda>_ _. True)\<rparr>) (form_of [text_input\<lparr>val := ''abc''\<rparr>])
     (hd_opt (field_set (form_of [text_input\<lparr>val := ''abc''\<rparr>]) [0])) \<and>
   validateInput ((engine DEFAULTS [])\<lparr>veto := (\<lambda>_ _. True)\<rparr>) [0] False (form_of [text_input\<lparr>val := ''abc''\<rparr>]) =
     ((form_of [text_input\<lparr>val := ''abc''\<rparr>])\<lparr>log := [EvValidate (Some 0)]\<rparr>, Ret None)"
  using validate_cancelled[of "(engine DEFAULTS [])\<lparr>veto := (\<lambda>_ _. True)\<rparr>" "[0]" False
      "form_of [text_input\<lparr>val := ''abc''\<rparr>]"]
  by (simp add: engine_def form_of_def text_input_def field_set_def jq_is_def hd_opt_def)



text \<open>
  C1, as the code has it. The plugin has no exception handling. When a registered
  validator that applies to the field throws, the pass ends with that exception: none
  of the validators registered after it is called, the callback of the pass is not
  called, so the stored error list of the field itself is not updated, and neither the
  stored error lists nor the groups, error blocks, feedback icons and submit controls
  of the form change.
\<close>

theorem throwing_validator_ends_pass:
  assumes vs: "validators env = vs1 @ (key, v) # vs2"
      and dist: "distinct (map fst (validators env))"
      and nv: "\<not> veto env s (hd_opt (field_set s el))"
      and ap: "(truthy (getValue s (field_set s el)) \<or> jq_required s (field_set s el)) \<and>
               (truthy (jq_data s (field_set s el) key) \<or> key = ''native'')"
      and thr: "call_validator env v s (field_set s el) = Threw"
  shows "snd (validateInput env el de s) = Threw \<and>
         (\<exists>l. log (fst (validateInput env el de s)) = log s @ l \<and>
              (\<forall>k \<in> fst ` set vs2. Ran k (field_set s el) \<notin> set l)) \<and>
         map errors (store (fst (validateInput env el de s))) = map errors (store s) \<and>
         groups (fst (validateInput env el de s)) = groups s \<and>
         blocks (fst (validateInput env el de s)) = blocks s \<and>
         feedbacks (fst (validateInput env el de s)) = feedbacks s \<and>
         btn (fst (validateInput env el de s)) = btn s"
proof -
  define els where "els = field_set s el"
  define s1 where "s1 = s\<lparr>log := log s @ [EvValidate (hd_opt els)]\<rparr>"
  define s2 where "s2 = before_loop s1 els"
  have el2: "elements s2 = elements s" by (simp add: s2_def s1_def before_loop_simps)
  have "applies s els key" using ap by (simp add: applies_def els_def)
  then have a2: "applies s2 els key" by (simp add: applies_cong[OF el2])
  have c2: "call_validator env v s2 els = Threw" using thr by (simp add: call_validator_cong[OF el2] els_def)
  from each_validator_throws[OF a2 c2, of vs1 vs2 "[]"] obtain l where
    l: "each_validator env els (validators env) s2 [] = (s2\<lparr>log := log s2 @ l\<rparr>, Threw)"
       "set l \<subseteq> (\<lambda>k. Ran k els) ` fst ` set (vs1 @ [(key, v)])"
    unfolding vs by blast
  have rv: "runValidators env els s1 = (s2\<lparr>log := log s2 @ l\<rparr>, Threw)"
    unfolding runValidators_unfold s2_def[symmetric] l(1) by simp
  have vi: "validateInput env el de s = (s2\<lparr>log := log s2 @ l\<rparr>, Threw)"
    using nv unfolding validateInput_def Let_def els_def[symmetric] s1_def[symmetric] rv by simp
  have lg: "log (s2\<lparr>log := log s2 @ l\<rparr>) = log s @ (EvValidate (hd_opt els) # l)"
    by (simp add: s2_def s1_def before_loop_simps)
  have nk: "Ran k els \<notin> set (EvValidate (hd_opt els) # l)" if "k \<in> fst ` set vs2" for k
  proof -
    have "k \<notin> fst ` set (vs1 @ [(key, v)])" using dist that unfolding vs by auto
    then show ?thesis using l(2) by auto
  qed
  show ?thesis
    unfolding vi els_def[symmetric] using lg nk
    by (auto simp: s2_def s1_def before_loop_simps)
qed

theorem throwing_validator_ends_pass_witness:
  "validators coupon_engine = VALIDATORS @ (''coupon'', Custom (\<lambda>_ _. Threw)) # [(''stock'', Custom (\<lambda>_ _. Ret (Str ''sold out'')))] \<and>
   distinct (map fst (validators coupon_engine)) \<and>
   \<not> veto coupon_engine coupon_form (hd_opt (field_set coupon_form [0])) \<and>
   truthy (getValue coupon_form (field_set coupon_form [0])) \<and>
   truthy (jq_data coupon_form (field_set coupon_form [0]) ''coupon'') \<and>
   call_validator coupon_engine (Custom (\<lambda>_ _. Threw)) coupon_form (field_set coupon_form [0]) = Threw \<and>
   snd (validateInput coupon_engine [0] False coupon_form) = Threw \<and>
   map errors (store (fst (validateInput coupon_engine [0] False coupon_form))) = [None]"
proof -
  have vs: "validators coupon_engine = VALIDATORS @ (''coupon'', Custom (\<lambda>_ _. Threw)) # [(''stock'', Custom (\<lambda>_ _. Ret (Str ''sold out'')))]"
  proof -
    have "array_index ''coupon'' = None" "array_index ''stock'' = None" by code_simp+
    then show ?thesis
      using array_index_VALIDATORS
      by (simp add: coupon_engine_def engine_def extend_def for_in_names VALIDATORS_def)
  qed
  have dist: "distinct (map fst (validators coupon_engine))"
    by (simp add: vs VALIDATORS_def)
  have nv: "\<not> veto coupon_engine coupon_form (hd_opt (field_set coupon_form [0]))"
    by (simp add: coupon_engine_def engine_def)
  have fs: "field_set coupon_form [0] = [0]" by code_simp
  have tv: "truthy (getValue coupon_form (field_set coupon_form [0]))" by code_simp
  have td: "truthy (jq_data coupon_form (field_set coupon_form [0]) ''coupon'')" by code_simp
  have thr: "call_validator coupon_engine (Custom (\<lambda>_ _. Threw)) coupon_form (field_set coupon_form [0]) = Threw"
    by simp
  have st: "map errors (store coupon_form) = [None]" by code_simp
  from throwing_validator_ends_pass[OF vs dist nv _ thr, of False] tv td st
  show ?thesis using vs dist nv thr by simp
qed

text \<open>
  C1 as stated fails: on a field that declares \<open>coupon\<close> and \<open>stock\<close>, where the validator
  of \<open>coupon\<close> throws, the pass throws, the validator of \<open>stock\<close>, which is registered after
  it, is not called, and no error list is stored.
\<close>

theorem throwing_validator_counterexample:
  "snd (validateInput coupon_engine [0] False coupon_form) = Threw \<and>
   log (fst (validateInput coupon_engine [0] False coupon_form)) =
     [EvValidate (Some 0), Ran ''native'' [0], Ran ''coupon'' [0]] \<and>
   errors (store (fst (validateInput coupon_engine [0] False coupon_form)) ! 0) = None"
  by code_simp

text \<open>
  C6, as the code has it. Take a field that declares \<open>minlength\<close> with the number \<open>n\<close>,
  in a pass that is not cancelled, makes no remote check and whose validators do not
  throw. The pass stores the error list of its loop on the field. When the field has a
  value or is required, and the length of its value is less than \<open>n\<close>, that list holds
  the message of \<open>minlength\<close> (the field's own message if it declares one, else
  \<open>Not long enough\<close>). Otherwise, so also when the length equals \<open>n\<close>, and when the field
  is empty and not required, \<open>minlength\<close> adds nothing: the list is the one of the other
  validators.
\<close>

theorem minlength_reported:
  assumes reg: "(''minlength'', Minlength) \<in> set (validators env)"
      and dist: "distinct (map fst (validators env))"
      and fe: "first_el s (field_set s el) = Some e"
      and thr: "jq_data s (field_set s el) ''minlength'' = Num n"
      and nv: "\<not> veto env s (hd_opt (field_set s el))"
      and nrem: "\<not> truthy (jq_data s (field_set s el) ''remote'')"
      and lp: "snd (each_validator env (field_set s el) (validators env) s []) = Ret errs"
  shows "(\<forall>i \<in> set (field_set s el). i < length (store s) \<longrightarrow>
            errors (store (fst (validateInput env el de s)) ! i) = Some errs) \<and>
         ((truthy (getValue s (field_set s el)) \<or> jq_required s (field_set s el)) \<and> int (length (val e)) < n \<longrightarrow>
            (\<exists>m. getErrorMessage s (field_set s el) ''minlength'' = Ret m \<and>
                 js_or m (Str ''Not long enough'') \<in> set errs)) \<and>
         (\<not> ((truthy (getValue s (field_set s el)) \<or> jq_required s (field_set s el)) \<and> int (length (val e)) < n) \<longrightarrow>
            snd (each_validator env (field_set s el)
                   (filter (\<lambda>(k, v). k \<noteq> ''minlength'') (validators env)) s []) = Ret errs)"
proof -
  define els where "els = field_set s el"
  have nr: "\<not> (errs = [] \<and> truthy (getValue s els) \<and> truthy (jq_data s els ''remote''))"
    using nrem by (simp add: els_def)
  have p1: "\<forall>i \<in> set els. i < length (store s) \<longrightarrow> errors (store (fst (validateInput env el de s)) ! i) = Some errs"
    using validateInput_stores[OF nv lp nr[unfolded els_def], of _ de] by (simp add: els_def)
  have cv: "call_validator env Minlength s els =
      Ret (if int (length (val e)) < n then Str ''Not long enough'' else Bool False)"
    using fe thr by (simp add: minlength_def js_less_def els_def)
  have p2: "\<exists>m. getErrorMessage s els ''minlength'' = Ret m \<and> js_or m (Str ''Not long enough'') \<in> set errs"
    if g: "truthy (getValue s els) \<or> jq_required s els" and lt: "int (length (val e)) < n"
  proof -
    have "n \<noteq> 0" using lt by auto
    then have ap: "applies s els ''minlength''" using g thr by (simp add: applies_def els_def)
    obtain s' where e: "each_validator env els (validators env) s [] = (s', Ret errs)"
      using lp by (cases "each_validator env els (validators env) s []") (auto simp: els_def)
    from each_validator_reports[OF reg ap _ _ e, of "Str ''Not long enough''"] cv lt
    show ?thesis by simp
  qed
  have p3: "snd (each_validator env els (filter (\<lambda>(k, v). k \<noteq> ''minlength'') (validators env)) s []) = Ret errs"
    if ng: "\<not> ((truthy (getValue s els) \<or> jq_required s els) \<and> int (length (val e)) < n)"
  proof -
    have only: "v = Minlength" if "(''minlength'', v) \<in> set (validators env)" for v
      using that reg dist by (meson eq_key_imp_eq_value)
    have one: "\<not> applies s els k \<or> (\<exists>x. call_validator env v s els = Ret x \<and> \<not> truthy x)"
      if v: "(k, v) \<in> set (validators env)" and k: "k = ''minlength''" for k v
    proof (cases "applies s els k")
      case False
      then show ?thesis by simp
    next
      case True
      have "v = Minlength" using only v k by simp
      moreover have "\<not> int (length (val e)) < n" using ng True k by (auto simp: applies_def)
      ultimately show ?thesis using cv by simp
    qed
    have "\<forall>(k, v) \<in> set (validators env). k = ''minlength'' \<longrightarrow>
            \<not> applies s els k \<or> (\<exists>x. call_validator env v s els = Ret x \<and> \<not> truthy x)"
      using one by blast
    from each_validator_skip[of "validators env" "\<lambda>k. k = ''minlength''" s els env "[]", OF this] lp
    show ?thesis by (simp add: els_def)
  qed
  show ?thesis using p1 p2 p3 unfolding els_def by blast
qed


theorem minlength_reported_witness:
  "(''minlength'', Minlength) \<in> set (validators (engine DEFAULTS [])) \<and>
   distinct (map fst (validators (engine DEFAULTS []))) \<and>
   first_el (form_of [text_input\<lparr>required := True, val := ''abc'', attrs := [(''minlength'', Num 5)]\<rparr>])
     (field_set (form_of [text_input\<lparr>required := True, val := ''abc'', attrs := [(''minlength'', Num 5)]\<rparr>]) [0]) =
     Some (text_input\<lparr>required := True, val := ''abc'', attrs := [(''minlength'', Num 5)]\<rparr>) \<and>
   int (length (val (text_input\<lparr>required := True, val := ''abc'', attrs := [(''minlength'', Num 5)]\<rparr>))) < 5 \<and>
   errors (store (fst (validateInput (engine DEFAULTS []) [0] False
     (form_of [text_input\<lparr>required := True, val := ''abc'', attrs := [(''minlength'', Num 5)]\<rparr>]))) ! 0) =
     Some [Str ''Not long enough'']"
proof -
  let ?e = "text_input\<lparr>required := True, val := ''abc'', attrs := [(''minlength'', Num 5)]\<rparr>"
  let ?w = "form_of [?e]"
  let ?E = "engine DEFAULTS []"
  have fs: "field_set ?w [0] = [0]" by code_simp
  have reg: "(''minlength'', Minlength) \<in> set (validators ?E)"
    and dist: "distinct (map fst (validators ?E))"
    by (simp_all add: engine_def extend_Nil) (simp_all add: VALIDATORS_def)
  have fe: "first_el ?w (field_set ?w [0]) = Some ?e" by code_simp
  have thr: "jq_data ?w (field_set ?w [0]) ''minlength'' = Num 5" by code_simp
  have nv: "\<not> veto ?E ?w (hd_opt (field_set ?w [0]))" by (simp add: engine_def)
  have nrem: "\<not> truthy (jq_data ?w (field_set ?w [0]) ''remote'')" by code_simp
  have lp: "snd (each_validator ?E (field_set ?w [0]) (validators ?E) ?w []) = Ret [Str ''Not long enough'']"
    by code_simp
  have lt: "int (length (val ?e)) < 5" by (simp add: text_input_def)
  have i: "0 \<in> set (field_set ?w [0])" "0 < length (store ?w)" by code_simp+
  from minlength_reported[OF reg dist fe thr nv nrem lp, of False] i
  have "errors (store (fst (validateInput ?E [0] False ?w)) ! 0) = Some [Str ''Not long enough'']"
    by blast
  then show ?thesis using reg dist fe lt by simp
qed

text \<open>
  C6 as stated fails on an empty field that is not required: the length 0 of its value is
  less than the threshold 5, and the pass reports no error.
\<close>

theorem minlength_counterexample:
  "jq_data (form_of [text_input\<lparr>attrs := [(''minlength'', Num 5)]\<rparr>]) [0] ''minlength'' = Num 5 \<and>
   jq_val (form_of [text_input\<lparr>attrs := [(''minlength'', Num 5)]\<rparr>]) [0] = Str [] \<and>
   validateInput (engine DEFAULTS []) [0] False (form_of [text_input\<lparr>attrs := [(''minlength'', Num 5)]\<rparr>]) =
     ((form_of [text_input\<lparr>attrs := [(''minlength'', Num 5)]\<rparr>])
        \<lparr>store := [\<lparr>errors = Some [], deferred = Some 0, timeout = None\<rparr>],
         deferreds := [\<lparr>status = Resolved [], callbacks = []\<rparr>],
         log := [EvValidate (Some 0), EvValid (Some 0) None, EvValidated (Some 0)]\<rparr>, Ret (Some 0))"
  by code_simp

text \<open>
  C2, as the code has it. \<open>onSubmit\<close> calls \<open>validate\<close> and decides as soon as it returns,
  without waiting for remote checks that the passes have left pending: when \<open>validate\<close>
  returns without an exception, the default action is prevented if and only if, in the
  state at that moment, a required field of \<open>$inputs\<close> is incomplete (its value is empty
  once \<open>$.trim\<close> has dropped the blanks around it, or it is not checked) or a field of
  \<open>$inputs\<close> has a stored error list that is not empty.
\<close>

theorem submit_gate:
  "onSubmit env s = (s', Ret prevented) \<longrightarrow>
     validate env s = (s', Ret ()) \<and> inputs s' = inputs s \<and>
     (prevented \<longleftrightarrow>
        (\<exists>i \<in> set (inputs s'). jq_required s' [i] \<and> fieldIncomplete s' i) \<or>
        (\<exists>i \<in> set (inputs s'). \<exists>errs. jq_errors s' [i] = Some errs \<and> errs \<noteq> []))"
proof
  assume a: "onSubmit env s = (s', Ret prevented)"
  obtain s1 r where v: "validate env s = (s1, r)" by (cases "validate env s")
  from a have r: "r = Ret ()" and s1: "s1 = s'" and p: "prevented = (isIncomplete s' \<or> hasErrors s')"
    by (auto simp: onSubmit_def v split: completion.splits)
  have i: "isIncomplete s' = (\<exists>i \<in> set (inputs s'). jq_required s' [i] \<and> fieldIncomplete s' i)"
    by (auto simp: isIncomplete_def filter_empty_conv)
  have h: "hasErrors s' = (\<exists>i \<in> set (inputs s'). \<exists>errs. jq_errors s' [i] = Some errs \<and> errs \<noteq> [])"
    by (auto simp: hasErrors_def fieldErrors_def filter_empty_conv split: option.splits)
  have f: "inputs s' = inputs s" using frame_validate[of s env] v s1 by (simp add: frame_def)
  show "validate env s = (s', Ret ()) \<and> inputs s' = inputs s \<and>
     (prevented \<longleftrightarrow>
        (\<exists>i \<in> set (inputs s'). jq_required s' [i] \<and> fieldIncomplete s' i) \<or>
        (\<exists>i \<in> set (inputs s'). \<exists>errs. jq_errors s' [i] = Some errs \<and> errs \<noteq> []))"
    using v r s1 p i h f by simp
qed

theorem submit_gate_witness:
  "onSubmit (engine DEFAULTS []) (form_of [text_input\<lparr>required := True, val := [CHR 0xA0]\<rparr>]) =
     (fst (validate (engine DEFAULTS []) (form_of [text_input\<lparr>required := True, val := [CHR 0xA0]\<rparr>])), Ret True) \<and>
   jq_required (fst (validate (engine DEFAULTS []) (form_of [text_input\<lparr>required := True, val := [CHR 0xA0]\<rparr>]))) [0] \<and>
   fieldIncomplete (fst (validate (engine DEFAULTS []) (form_of [text_input\<lparr>required := True, val := [CHR 0xA0]\<rparr>]))) 0 \<and>
   map errors (store (fst (validate (engine DEFAULTS []) (form_of [text_input\<lparr>required := True, val := [CHR 0xA0]\<rparr>])))) =
     [Some []]"
proof -
  let ?w = "form_of [text_input\<lparr>required := True, val := [CHR 0xA0]\<rparr>]"
  let ?E = "engine DEFAULTS []"
  have a: "onSubmit ?E ?w = (fst (validate ?E ?w), Ret True)" by code_simp
  have b: "jq_required (fst (validate ?E ?w)) [0]" "fieldIncomplete (fst (validate ?E ?w)) 0"
    "map errors (store (fst (validate ?E ?w))) = [Some []]"
    by code_simp+
  from submit_gate[of ?E ?w "fst (validate ?E ?w)" True] a
  have "validate ?E ?w = (fst (validate ?E ?w), Ret ())" by blast
  then show ?thesis using a b by simp
qed

text \<open>
  C2 as stated fails when a remote check is pending: the submission of a form whose
  field has a value and a remote check is not prevented, as no error is stored when
  \<open>validate\<close> returns; the full-form validate settles when the timer has run out and the
  request has failed, and the field then holds a non-empty error list.
\<close>

theorem submit_gate_counterexample:
  "snd (onSubmit (engine DEFAULTS []) remote_form) = Ret False \<and>
   timers (fst (onSubmit (engine DEFAULTS []) remote_form)) = [(1, RemoteCheck [0] 0)] \<and>
   map status (deferreds (fst (onSubmit (engine DEFAULTS []) remote_form))) = [Pending] \<and>
   requests (fst (timeout_fires (engine DEFAULTS []) 1 (fst (onSubmit (engine DEFAULTS []) remote_form)))) =
     [\<lparr>r_els = [0], r_deferred = 0, r_url = Str ''/check'', r_name = Str ''user'', r_value = Str ''abc''\<rparr>] \<and>
   map status (deferreds (fst (response (engine DEFAULTS []) 0 (Failure (Str ''Not Found''))
     (fst (timeout_fires (engine DEFAULTS []) 1 (fst (onSubmit (engine DEFAULTS []) remote_form))))))) =
     [Resolved [Str ''Not Found'']] \<and>
   map errors (store (fst (response (engine DEFAULTS []) 0 (Failure (Str ''Not Found''))
     (fst (timeout_fires (engine DEFAULTS []) 1 (fst (onSubmit (engine DEFAULTS []) remote_form))))))) =
     [Some [Str ''Not Found'']] \<and>
   hasErrors (fst (response (engine DEFAULTS []) 0 (Failure (Str ''Not Found''))
     (fst (timeout_fires (engine DEFAULTS []) 1 (fst (onSubmit (engine DEFAULTS []) remote_form))))))"
  by code_simp

text \<open>
  C3 does not hold of the code. \<open>reset\<close> removes the stored deferred of a field without
  rejecting it, so the next pass on the field finds nothing to reject. In the run with
  the reset, requests 0 and 1 are both pending with pending deferreds, the field's handle
  being deferred 1; when request 0 fails, deferred 0 is resolved and its callback stores
  and shows the error of the check that the later pass should have superseded. In the run
  without the reset, the later pass has rejected deferred 0 and the same answer changes
  neither the stored errors nor the group.
\<close>

theorem stale_check_applied_after_reset:
  "map r_deferred (requests typed_reset_typed) = [0, 1] \<and>
   map status (deferreds typed_reset_typed) = [Pending, Pending] \<and>
   map deferred (store typed_reset_typed) = [Some 1] \<and>
   map errors (store typed_reset_typed) = [None] \<and>
   map status (deferreds (fst (response prompt_engine 0 (Failure (Str ''Not Found'')) typed_reset_typed))) =
     [Resolved [Str ''Not Found''], Pending] \<and>
   map errors (store (fst (response prompt_engine 0 (Failure (Str ''Not Found'')) typed_reset_typed))) =
     [Some [Str ''Not Found'']] \<and>
   has_error (groups (fst (response prompt_engine 0 (Failure (Str ''Not Found'')) typed_reset_typed)) ! 0) \<and>
   map r_deferred (requests typed_typed) = [0, 1] \<and>
   map status (deferreds typed_typed) = [Rejected, Pending] \<and>
   map errors (store (fst (response prompt_engine 0 (Failure (Str ''Not Found'')) typed_typed))) = [None] \<and>
   \<not> has_error (groups (fst (response prompt_engine 0 (Failure (Str ''Not Found'')) typed_typed)) ! 0)"
  by code_simp





text \<open>
  C9, as the code has it. The value of a radio input is \<open>true\<close> exactly when some element
  of the page, in or out of the form, has the radio's name (the string \<open>undefined\<close> for a
  radio without a name) and matches \<open>:checked\<close>: it is a checkbox or radio input that is
  checked, or an option that is selected. A pass triggered on a radio input that is not
  cancelled and calls its callback at once stores its error list on every \<open>input\<close>
  element of the form that has that name.
\<close>

theorem radio_value_and_group:
  "(i < length (elements s) \<and> etype (elements s ! i) = Radio \<longrightarrow>
      getValue s [i] =
        Bool (\<exists>e \<in> set (elements s). name e = Some (name_string (jq_name s [i])) \<and>
               (tag e = InputTag \<and> (etype e = Checkbox \<or> etype e = Radio) \<and> checked e \<or>
                tag e = OptionTag \<and> selected e))) \<and>
   (i < length (elements s) \<and> etype (elements s ! i) = Radio \<and>
    \<not> veto env s (hd_opt (field_set s [i])) \<and>
    snd (each_validator env (field_set s [i]) (validators env) s []) = Ret errs \<and>
    \<not> (errs = [] \<and> truthy (getValue s (field_set s [i])) \<and> truthy (jq_data s (field_set s [i]) ''remote'')) \<longrightarrow>
      (\<forall>j < length (elements s).
          in_form (elements s ! j) \<and> tag (elements s ! j) = InputTag \<and>
          name (elements s ! j) = Some (name_string (jq_name s [i])) \<and> j < length (store s) \<longrightarrow>
            errors (store (fst (validateInput env [i] de s)) ! j) = Some errs))"
proof -
  have g: "errors (store (fst (validateInput env [i] de s)) ! j) = Some errs"
    if r: "i < length (elements s)" "etype (elements s ! i) = Radio"
      and nv: "\<not> veto env s (hd_opt (field_set s [i]))"
      and lp: "snd (each_validator env (field_set s [i]) (validators env) s []) = Ret errs"
      and nr: "\<not> (errs = [] \<and> truthy (getValue s (field_set s [i])) \<and> truthy (jq_data s (field_set s [i]) ''remote''))"
      and j: "j < length (elements s)" "in_form (elements s ! j)" "tag (elements s ! j) = InputTag"
        "name (elements s ! j) = Some (name_string (jq_name s [i]))" "j < length (store s)"
    for j
  proof -
    have "field_set s [i] = find_inputs_named s (name_string (jq_name s [i]))"
      using r by (simp add: field_set_def jq_is_def)
    then have "j \<in> set (field_set s [i])" using j by (simp add: find_inputs_named_def)
    from validateInput_stores[OF nv lp nr this j(5)] show ?thesis .
  qed
  show ?thesis using getValue_radio[of i s] g unfolding is_checked_def by blast
qed

theorem radio_value_and_group_witness:
  "0 < length (elements (form_of [plan_radio, plan_radio\<lparr>checked := True\<rparr>])) \<and>
   etype (elements (form_of [plan_radio, plan_radio\<lparr>checked := True\<rparr>]) ! 0) = Radio \<and>
   getValue (form_of [plan_radio, plan_radio\<lparr>checked := True\<rparr>]) [0] = Bool True \<and>
   field_set (form_of [plan_radio, plan_radio\<lparr>checked := True\<rparr>]) [0] = [0, 1] \<and>
   snd (each_validator (engine DEFAULTS []) [0, 1] (validators (engine DEFAULTS []))
          (form_of [plan_radio, plan_radio\<lparr>checked := True\<rparr>]) []) = Ret [] \<and>
   errors (store (fst (validateInput (engine DEFAULTS []) [0] False
             (form_of [plan_radio, plan_radio\<lparr>checked := True\<rparr>]))) ! 1) = Some []"
proof -
  let ?w = "form_of [plan_radio, plan_radio\<lparr>checked := True\<rparr>]"
  let ?E = "engine DEFAULTS []"
  have r: "0 < length (elements ?w)" "etype (elements ?w ! 0) = Radio" by code_simp+
  have fs: "field_set ?w [0] = [0, 1]" by code_simp
  have nv: "\<not> veto ?E ?w (hd_opt (field_set ?w [0]))" by (simp add: engine_def)
  have lp: "snd (each_validator ?E (field_set ?w [0]) (validators ?E) ?w []) = Ret []" by code_simp
  have nr: "\<not> ([] = ([]::jsval list) \<and> truthy (getValue ?w (field_set ?w [0])) \<and>
      truthy (jq_data ?w (field_set ?w [0]) ''remote''))" by code_simp
  have j: "1 < length (elements ?w)" "in_form (elements ?w ! 1)" "tag (elements ?w ! 1) = InputTag"
    "name (elements ?w ! 1) = Some (name_string (jq_name ?w [0]))" "1 < length (store ?w)"
    by code_simp+
  have ex: "\<exists>e \<in> set (elements ?w). name e = Some (name_string (jq_name ?w [0])) \<and>
      (tag e = InputTag \<and> (etype e = Checkbox \<or> etype e = Radio) \<and> checked e \<or> tag e = OptionTag \<and> selected e)"
    by code_simp
  note T = radio_value_and_group[of 0 ?w ?E "[]" False]
  from T[THEN conjunct1] r ex have v: "getValue ?w [0] = Bool True" by simp
  from T[THEN conjunct2] r nv lp nr j
  have st: "errors (store (fst (validateInput ?E [0] False ?w)) ! 1) = Some []" by blast
  show ?thesis using r v fs lp[unfolded fs] st by blast
qed

text \<open>
  C9 as stated fails on a page where a checked checkbox, or a selected option, has the
  name of the radio input: no radio input of that name is checked, and the value of the
  radio input is \<open>true\<close>.
\<close>

theorem radio_value_counterexample:
  "filter (\<lambda>e. etype e = Radio \<and> name e = Some ''plan'' \<and> checked e)
      (elements (form_of [plan_radio, plan_checkbox])) = [] \<and>
   etype (elements (form_of [plan_radio, plan_checkbox]) ! 0) = Radio \<and>
   name (elements (form_of [plan_radio, plan_checkbox]) ! 0) = Some ''plan'' \<and>
   getValue (form_of [plan_radio, plan_checkbox]) [0] = Bool True \<and>
   filter (\<lambda>e. etype e = Radio \<and> name e = Some ''plan'' \<and> checked e)
      (elements (form_of [plan_radio, plan_option])) = [] \<and>
   getValue (form_of [plan_radio, plan_option]) [0] = Bool True"
  by code_simp

text \<open>
  C7 does not hold of the code, by two slips. \<open>showErrors\<close> reads the saved content and
  the markup of the first error block of the field's groups and writes to all of them:
  with two blocks in the group, the content of the first is saved as the original content
  of both, and after \<open>reset\<close> the second block shows the content of the first instead of
  its own. With one block in the group the content is restored. And \<open>reset\<close> cancels the
  timer of a field but keeps its handle on the field, as the \<open>removeData\<close> that follows
  \<open>window.clearTimeout(timeout) &&\<close> is never reached.
\<close>

theorem reset_does_not_restore:
  "map html (blocks two_block_form) = [Markup ''hint'', Markup ''note''] \<and>
   map originalContent (blocks two_block_form) = [None, None] \<and>
   map html (blocks errored_two_block_form) =
     [Rendered False [Str ''Not long enough''], Rendered False [Str ''Not long enough'']] \<and>
   map originalContent (blocks errored_two_block_form) = [Some (Markup ''hint''), Some (Markup ''hint'')] \<and>
   blocks (reset (engine DEFAULTS []) errored_two_block_form) =
     [\<lparr>html = Markup ''hint'', originalContent = None\<rparr>, \<lparr>html = Markup ''hint'', originalContent = None\<rparr>] \<and>
   blocks short_form = [\<lparr>html = Markup ''hint'', originalContent = None\<rparr>] \<and>
   blocks errored_form =
     [\<lparr>html = Rendered False [Str ''Not long enough''], originalContent = Some (Markup ''hint'')\<rparr>] \<and>
   blocks (reset (engine DEFAULTS []) errored_form) = blocks short_form \<and>
   timers debounced_form = [(1, ShowErrors [0])] \<and>
   map timeout (store debounced_form) = [Some 1] \<and>
   timers (reset (engine DEFAULTS []) debounced_form) = [] \<and>
   map timeout (store (reset (engine DEFAULTS []) debounced_form)) = [Some 1] \<and>
   map errors (store (reset (engine DEFAULTS []) debounced_form)) = [None]"
  by code_simp

end
